theory Spec2Isabelle
  imports Main "HOL-Library.Word" "HOL-Library.Monad_Syntax" "HOL-Library.Signed_Division"
    "HOL-Library.AList"
begin

unbundle bit_operations_syntax

section \<open>RTP payload extraction (stream/udp\_rtp.go)\<close>

text \<open>
  A Go \<open>[]byte\<close> is a list of 8-bit words. Go's \<open>int\<close> is 64 bits wide; every offset
  computed below stays under \<open>12 + 4 * 15 + 4 + 4 * 65535 + 255\<close>, so the offsets are
  modelled as unbounded \<open>int\<close> and never wrap. A run-time panic of the Go code (an
  index or a slice bound out of range, \<open>make\<close> with a negative length) is the value
  \<open>None\<close>: every index expression and every slice expression of the source goes through
  \<open>index_expr\<close> or \<open>slice_expr\<close>, which check the bounds the Go run time checks.
\<close>

type_synonym byte = "8 word"

abbreviation len :: "'a list \<Rightarrow> int" where
  "len xs \<equiv> int (length xs)"

text \<open>\<open>buf[i]\<close>: panics unless \<open>0 \<le> i < len(buf)\<close>.\<close>

definition index_expr :: "'a list \<Rightarrow> int \<Rightarrow> 'a option" where
  "index_expr buf i = (if 0 \<le> i \<and> i < len buf then Some (buf ! nat i) else None)"

text \<open>
  \<open>buf[lo:hi]\<close>: Go panics unless \<open>0 \<le> lo \<le> hi \<le> cap(buf)\<close>. The model checks against
  \<open>len(buf)\<close>, which is at most \<open>cap(buf)\<close>; a slice expression that passes here passes
  in Go.
\<close>

definition slice_expr :: "'a list \<Rightarrow> int \<Rightarrow> int \<Rightarrow> 'a list option" where
  "slice_expr buf lo hi =
     (if 0 \<le> lo \<and> lo \<le> hi \<and> hi \<le> len buf
      then Some (take (nat (hi - lo)) (drop (nat lo) buf)) else None)"

text \<open>\<open>make([]byte, n)\<close>: panics when \<open>n < 0\<close>, else \<open>n\<close> zero bytes.\<close>

definition make_bytes :: "int \<Rightarrow> byte list option" where
  "make_bytes n = (if n < 0 then None else Some (replicate (nat n) 0))"

text \<open>\<open>copy(dst, src)\<close>: overwrites the first \<open>min(len(dst), len(src))\<close> elements of \<open>dst\<close>.\<close>

definition copy :: "'a list \<Rightarrow> 'a list \<Rightarrow> 'a list" where
  "copy dst src = take (length dst) src @ drop (length src) dst"

text \<open>
  \<open>binary.BigEndian.Uint16(b)\<close> of the Go standard library:
  \<open>_ = b[1]; return uint16(b[1]) | uint16(b[0])<<8\<close>.
\<close>

definition BigEndian_Uint16 :: "byte list \<Rightarrow> 16 word option" where
  "BigEndian_Uint16 b =
     do { b1 \<leftarrow> index_expr b 1;
          b0 \<leftarrow> index_expr b 0;
          Some ((ucast b1 :: 16 word) OR push_bit 8 (ucast b0 :: 16 word)) }"

definition P_MPGA :: byte where "P_MPGA = 0x0E"
definition P_MPGV :: byte where "P_MPGV = 0x20"
definition RTP_VERSION :: byte where "RTP_VERSION = 2"

datatype rtp_error =
    BufferTooSmall
  | InvalidRTPVersion
  | BufferTooSmallForExtension
  | InvalidRTPPacketStructure

text \<open>
  \<open>rtpPayloadGet\<close> returns \<open>(startOff, endOff, err)\<close>; the model returns \<open>Inl err\<close> or
  \<open>Inr (startOff, endOff)\<close>, inside \<open>option\<close> for the panics.
\<close>

definition rtpPayloadGet_ext :: "byte list \<Rightarrow> int \<Rightarrow> (rtp_error + int) option" where
  "rtpPayloadGet_ext buf startOff =
     do { b0 \<leftarrow> index_expr buf 0;
          let x = drop_bit 4 b0 AND 0x01;
          if x = 1 then
            if startOff + 4 > len buf then Some (Inl BufferTooSmallForExtension)
            else do { s \<leftarrow> slice_expr buf (startOff + 2) (startOff + 4);
                      e \<leftarrow> BigEndian_Uint16 s;
                      let extLen = uint e;
                      Some (Inr (startOff + (4 + 4 * extLen))) }
          else Some (Inr startOff) }"

definition rtpPayloadGet_pad :: "byte list \<Rightarrow> int option" where
  "rtpPayloadGet_pad buf =
     do { b0 \<leftarrow> index_expr buf 0;
          let p = drop_bit 5 b0 AND 0x01;
          if p = 1 then
            if len buf > 0 then do { l \<leftarrow> index_expr buf (len buf - 1); Some (uint l) }
            else Some 0
          else Some 0 }"

definition rtpPayloadGet :: "byte list \<Rightarrow> (rtp_error + int \<times> int) option" where
  "rtpPayloadGet buf =
     (if len buf < 12 then Some (Inl BufferTooSmall)
      else do {
        b0 \<leftarrow> index_expr buf 0;
        let version = drop_bit 6 b0 AND 0x03;
        if version \<noteq> RTP_VERSION then Some (Inl InvalidRTPVersion)
        else do {
          c0 \<leftarrow> index_expr buf 0;
          let cc = c0 AND 0x0F;
          let startOff = 12 + 4 * uint cc;
          r \<leftarrow> rtpPayloadGet_ext buf startOff;
          case r of
            Inl err \<Rightarrow> Some (Inl err)
          | Inr startOff \<Rightarrow> do {
              endOff \<leftarrow> rtpPayloadGet_pad buf;
              if startOff + endOff > len buf then Some (Inl InvalidRTPPacketStructure)
              else Some (Inr (startOff, endOff)) } } })"

text \<open>
  \<open>processRTPPacket\<close> returns either its argument slice itself or a slice it has just
  allocated with \<open>make\<close>. The two are told apart in the result: \<open>Same data\<close> is the
  input slice (same backing array), \<open>Fresh payload\<close> a newly allocated one.
\<close>

datatype packet = Same "byte list" | Fresh "byte list"

fun bytes_of :: "packet \<Rightarrow> byte list" where
  "bytes_of (Same d) = d"
| "bytes_of (Fresh d) = d"

definition processRTPPacket_skip :: "byte list \<Rightarrow> int \<Rightarrow> int \<Rightarrow> int option" where
  "processRTPPacket_skip data startOff endOff =
     do { b1 \<leftarrow> index_expr data 1;
          let payloadType = b1 AND 0x7F;
          if payloadType = P_MPGA \<or> payloadType = P_MPGV then
            if startOff + 4 < len data - endOff then Some (startOff + 4) else Some startOff
          else Some startOff }"

definition processRTPPacket_payload :: "byte list \<Rightarrow> int \<Rightarrow> int \<Rightarrow> packet option" where
  "processRTPPacket_payload data startOff endOff =
     (if startOff < len data \<and> endOff < len data \<and> startOff < len data - endOff then
        if len data - startOff - endOff < 188 then Some (Same data)
        else do { payload \<leftarrow> make_bytes (len data - startOff - endOff);
                  s \<leftarrow> slice_expr data startOff (len data - endOff);
                  Some (Fresh (copy payload s)) }
      else Some (Same data))"

definition processRTPPacket :: "byte list \<Rightarrow> packet option" where
  "processRTPPacket data =
     (if len data < 188 then Some (Same data)
      else do {
        d0 \<leftarrow> index_expr data 0;
        if d0 = 0x47 then Some (Same data)
        else if len data < 12 then Some (Same data)
        else do {
          e0 \<leftarrow> index_expr data 0;
          let version = drop_bit 6 e0 AND 0x03;
          if version \<noteq> RTP_VERSION then Some (Same data)
          else do {
            r \<leftarrow> rtpPayloadGet data;
            case r of
              Inl err \<Rightarrow> Some (Same data)
            | Inr (startOff, endOff) \<Rightarrow> do {
                startOff \<leftarrow> processRTPPacket_skip data startOff endOff;
                processRTPPacket_payload data startOff endOff } } } })"

subsection \<open>The RTP header as the specification reads it\<close>

text \<open>
  The specification of the extractor speaks of a well-formed RTP packet, its header
  length and its padding. These three notions follow the specification's words (the fixed
  12-byte header, four bytes for each of the \<open>CC\<close> contributing sources, an optional
  extension of \<open>4 + 4 * ext_len\<close> bytes whose length is the big-endian 16-bit value at
  offset 2 of the extension, and the last byte as the padding count when the padding bit
  is set). They are compared with what \<open>rtpPayloadGet\<close> computes.
\<close>

definition spec_cc :: "byte list \<Rightarrow> int" where
  "spec_cc d = uint (d ! 0 AND 0x0F)"

definition spec_has_ext :: "byte list \<Rightarrow> bool" where
  "spec_has_ext d = (drop_bit 4 (d ! 0) AND 0x01 = 1)"

definition spec_ext_len :: "byte list \<Rightarrow> int" where
  "spec_ext_len d =
     256 * uint (d ! nat (12 + 4 * spec_cc d + 2)) + uint (d ! nat (12 + 4 * spec_cc d + 3))"

definition spec_header_len :: "byte list \<Rightarrow> int" where
  "spec_header_len d =
     12 + 4 * spec_cc d + (if spec_has_ext d then 4 + 4 * spec_ext_len d else 0)"

definition spec_pad :: "byte list \<Rightarrow> int" where
  "spec_pad d = (if drop_bit 5 (d ! 0) AND 0x01 = 1 then uint (last d) else 0)"

definition spec_well_formed :: "byte list \<Rightarrow> bool" where
  "spec_well_formed d =
     (12 \<le> len d \<and> drop_bit 6 (d ! 0) AND 0x03 = 2 \<and>
      (if spec_has_ext d then 12 + 4 * spec_cc d + 4 \<le> len d else True) \<and>
      spec_header_len d + spec_pad d \<le> len d)"

text \<open>The window \<open>d[header_len : len(d) - pad]\<close>.\<close>

definition spec_window :: "byte list \<Rightarrow> byte list" where
  "spec_window d =
     take (nat (len d - spec_pad d - spec_header_len d)) (drop (nat (spec_header_len d)) d)"

section \<open>The ring buffer\<close>

text \<open>
  A frame is a Go \<open>[]byte\<close> that may be \<open>nil\<close>: \<open>None\<close> is the nil slice. The fields of
  \<open>RingBuffer\<close> are Go \<open>int\<close>s, modelled as \<open>int\<close> (they stay between 0 and the
  capacity, which is the length of an allocated slice, so no arithmetic on them wraps).
  The field \<open>size\<close> of the source is \<open>size_rb\<close> here, \<open>size\<close> being a constant of HOL.
  The mutex \<open>lock\<close> is not modelled: each method runs as one atomic step.
\<close>

type_synonym frame = "byte list option"

record RingBuffer =
  buf :: "frame list"
  size_rb :: int
  start :: int
  count :: int

text \<open>\<open>buf[i] = v\<close>: panics unless \<open>0 \<le> i < len(buf)\<close>.\<close>

definition store_expr :: "'a list \<Rightarrow> int \<Rightarrow> 'a \<Rightarrow> 'a list option" where
  "store_expr xs i v = (if 0 \<le> i \<and> i < len xs then Some (xs[nat i := v]) else None)"

text \<open>
  Go's \<open>a % b\<close> on \<open>int\<close>: the remainder of the division that truncates towards zero;
  it panics when \<open>b = 0\<close>.
\<close>

definition go_rem :: "int \<Rightarrow> int \<Rightarrow> int option" where
  "go_rem a b = (if b = 0 then None else Some (a smod b))"

text \<open>\<open>make([][]byte, n)\<close>: panics when \<open>n < 0\<close>, else \<open>n\<close> nil slices.\<close>

definition make_frames :: "int \<Rightarrow> frame list option" where
  "make_frames n = (if n < 0 then None else Some (replicate (nat n) None))"

definition NewRingBuffer :: "int \<Rightarrow> RingBuffer option" where
  "NewRingBuffer n =
     do { b \<leftarrow> make_frames n;
          Some \<lparr>buf = b, size_rb = n, start = 0, count = 0\<rparr> }"

definition Push :: "RingBuffer \<Rightarrow> frame \<Rightarrow> RingBuffer option" where
  "Push r item =
     (if count r < size_rb r then
        do { i \<leftarrow> go_rem (start r + count r) (size_rb r);
             b \<leftarrow> store_expr (buf r) i item;
             Some (r\<lparr>buf := b, count := count r + 1\<rparr>) }
      else
        do { b \<leftarrow> store_expr (buf r) (start r) item;
             s \<leftarrow> go_rem (start r + 1) (size_rb r);
             Some (r\<lparr>buf := b, start := s\<rparr>) })"

text \<open>The loop \<open>for i := 0; i < r.count; i++ { out[i] = r.buf[(r.start+i)%r.size] }\<close>.\<close>

function GetAll_loop :: "RingBuffer \<Rightarrow> int \<Rightarrow> frame list \<Rightarrow> frame list option" where
  "GetAll_loop r i out =
     (if i < count r then
        (case go_rem (start r + i) (size_rb r) of
           None \<Rightarrow> None
         | Some j \<Rightarrow>
            (case index_expr (buf r) j of
               None \<Rightarrow> None
             | Some x \<Rightarrow>
                (case store_expr out i x of
                   None \<Rightarrow> None
                 | Some out' \<Rightarrow> GetAll_loop r (i + 1) out')))
      else Some out)"
  by pat_completeness auto
termination
  by (relation "measure (\<lambda>(r, i, out). nat (count r - i))") auto

definition GetAll :: "RingBuffer \<Rightarrow> frame list option" where
  "GetAll r = do { out \<leftarrow> make_frames (count r); GetAll_loop r 0 out }"

text \<open>A sequence of \<open>Push\<close> calls, in order; a panic in one of them ends the run.\<close>

fun Push_all :: "RingBuffer \<Rightarrow> frame list \<Rightarrow> RingBuffer option" where
  "Push_all r [] = Some r"
| "Push_all r (x # xs) = (case Push r x of None \<Rightarrow> None | Some r' \<Rightarrow> Push_all r' xs)"

subsection \<open>The logical contents of the ring\<close>

text \<open>
  The invariant of a ring of capacity \<open>N\<close> and the list it holds, oldest frame first:
  slot \<open>i\<close> of the contents is \<open>buf[(start + i) % size]\<close>, for \<open>i < count\<close>.
  \<open>lastn n xs\<close> is the list of the last \<open>n\<close> elements of \<open>xs\<close> (all of \<open>xs\<close>
  when it is shorter).
\<close>

definition ring_inv :: "RingBuffer \<Rightarrow> int \<Rightarrow> bool" where
  "ring_inv r N = (size_rb r = N \<and> len (buf r) = N \<and> 0 \<le> start r \<and> start r < N \<and>
                   0 \<le> count r \<and> count r \<le> N)"

definition ring_slot :: "RingBuffer \<Rightarrow> nat \<Rightarrow> frame" where
  "ring_slot r i = buf r ! nat ((start r + int i) mod size_rb r)"

definition ring_contents :: "RingBuffer \<Rightarrow> frame list" where
  "ring_contents r = map (ring_slot r) [0..<nat (count r)]"


definition lastn :: "nat \<Rightarrow> 'a list \<Rightarrow> 'a list" where
  "lastn n xs = drop (length xs - n) xs"


section \<open>The stream hub\<close>

text \<open>
  The hub shares objects with other parts of the program: the channel of a client is
  held by the hub and by the HTTP handler, a UDP connection by the hub and by its receive
  loop. These objects live in a store (\<open>memory\<close>), and the hub holds references to them
  (natural numbers). Each method of the source is one function from the state before to
  the state after: the methods take the hub's mutex for their whole body (or, in
  \<open>broadcast\<close> and \<open>run\<close>, for each of the steps modelled here), so the interleaving of
  goroutines is not modelled. A goroutine that a method starts is recorded in the ghost
  field \<open>Spawned\<close>; it is not run by the method. \<open>None\<close> is a run-time panic.
\<close>

subsection \<open>Channels\<close>

text \<open>
  A buffered Go channel of frames: the pending frames (oldest first), the capacity and
  whether \<open>close\<close> has been called. The ghost field \<open>nclose\<close> counts the calls of
  \<open>close\<close> on the channel that returned.
\<close>

record chan =
  items :: "frame list"
  cap :: nat
  closed :: bool
  nclose :: nat

text \<open>
  \<open>select { case ch <- v: ... default: ... }\<close> on a non-nil channel: a send on a closed
  channel panics; otherwise the frame is enqueued when there is room (\<open>True\<close>), and the
  default branch is taken when the buffer is full (\<open>False\<close>).
\<close>

definition try_send :: "chan \<Rightarrow> frame \<Rightarrow> (bool \<times> chan) option" where
  "try_send c v =
     (if closed c then None
      else if length (items c) < cap c then Some (True, c\<lparr>items := items c @ [v]\<rparr>)
      else Some (False, c))"

text \<open>
  \<open>select { case <-ch: default: }\<close> on a non-nil channel, the received value being
  discarded: the oldest pending frame is removed if there is one.
\<close>

definition try_recv :: "chan \<Rightarrow> chan" where
  "try_recv c = c\<lparr>items := tl (items c)\<rparr>"

text \<open>\<open>close(ch)\<close> on a non-nil channel: panics when the channel is already closed.\<close>

definition close_chan :: "chan \<Rightarrow> chan option" where
  "close_chan c = (if closed c then None else Some (c\<lparr>closed := True, nclose := nclose c + 1\<rparr>))"

subsection \<open>Network objects\<close>

text \<open>
  \<open>net.UDPAddr\<close>, \<open>net.Interface\<close> and \<open>net.UDPConn\<close> of the Go standard library, as far
  as the hub uses them. \<open>IP\<close> is a byte slice that may be nil.
\<close>

record UDPAddr =
  IP :: "byte list option"
  Port :: int

record Interface =
  Index :: int
  Name :: string

record conn =
  laddr :: UDPAddr
  via :: "Interface option"
  multicast :: bool
  is_open :: bool

record memory =
  chans :: "nat \<Rightarrow> chan"
  conns :: "nat \<Rightarrow> conn"
  nconns :: nat

text \<open>
  The operating system and the standard library are parameters of the model: name
  resolution, interface lookup, whether a multicast or a unicast bind succeeds in the
  current state of the store, and the MD5 fingerprint used for registry keys.
\<close>

record net =
  ResolveUDPAddr :: "string \<Rightarrow> UDPAddr option"
  InterfaceByName :: "string \<Rightarrow> Interface option"
  multicast_ok :: "memory \<Rightarrow> Interface option \<Rightarrow> UDPAddr \<Rightarrow> bool"
  unicast_ok :: "memory \<Rightarrow> UDPAddr \<Rightarrow> bool"
  md5_hex :: "string \<Rightarrow> string"

definition new_conn :: "memory \<Rightarrow> conn \<Rightarrow> memory \<times> nat" where
  "new_conn m c = (m\<lparr>conns := (conns m)(nconns m := c), nconns := nconns m + 1\<rparr>, nconns m)"

text \<open>
  \<open>net.ListenMulticastUDP("udp", ifi, addr)\<close> and \<open>net.ListenUDP("udp", addr)\<close>: a new open
  connection, or an error (\<open>None\<close>) and no connection.
\<close>

definition ListenMulticastUDP ::
    "net \<Rightarrow> memory \<Rightarrow> Interface option \<Rightarrow> UDPAddr \<Rightarrow> memory \<times> nat option" where
  "ListenMulticastUDP env m ifi a =
     (if multicast_ok env m ifi a then
        (case new_conn m \<lparr>laddr = a, via = ifi, multicast = True, is_open = True\<rparr> of
           (m', c) \<Rightarrow> (m', Some c))
      else (m, None))"

definition ListenUDP :: "net \<Rightarrow> memory \<Rightarrow> UDPAddr \<Rightarrow> memory \<times> nat option" where
  "ListenUDP env m a =
     (if unicast_ok env m a then
        (case new_conn m \<lparr>laddr = a, via = None, multicast = False, is_open = True\<rparr> of
           (m', c) \<Rightarrow> (m', Some c))
      else (m, None))"

text \<open>
  \<open>if conn != nil { _ = conn.Close() }\<close>, the statement of \<open>Close\<close> for one element of
  \<open>h.UdpConns\<close>; the error of \<open>conn.Close()\<close> is discarded.
\<close>

definition close_conn :: "nat option \<Rightarrow> memory \<Rightarrow> memory" where
  "close_conn c m =
     (case c of None \<Rightarrow> m
      | Some r \<Rightarrow> m\<lparr>conns := (conns m)(r := (conns m r)\<lparr>is_open := False\<rparr>)\<rparr>)"

text \<open>
  \<open>net.IP.To4\<close> of the standard library: a 4-byte address is returned as it is, a 16-byte
  IPv4-mapped address gives its last four bytes, anything else nil.
\<close>

definition To4 :: "byte list option \<Rightarrow> byte list option" where
  "To4 ip =
     (case ip of None \<Rightarrow> None
      | Some b \<Rightarrow>
          if length b = 4 then Some b
          else if length b = 16 \<and> take 10 b = replicate 10 0 \<and> b ! 10 = 0xff \<and> b ! 11 = 0xff
          then Some (drop 12 b)
          else None)"

text \<open>\<open>isMulticast\<close>; \<open>ip4\<close> has four bytes, so \<open>ip4[0]\<close> is in range.\<close>

definition isMulticast :: "byte list option \<Rightarrow> bool" where
  "isMulticast ip =
     (case To4 ip of None \<Rightarrow> False
      | Some ip4 \<Rightarrow> ip4 ! 0 \<ge> 224 \<and> ip4 ! 0 \<le> 239)"

text \<open>
  The errors the hub returns, one constructor for each \<open>fmt.Errorf\<close> of the source; the
  text of the message and the wrapped cause are left out.
\<close>

datatype hub_error =
    ErrNoAddress
  | ErrAllListenFailed
  | ErrOnlyMulticast
  | ErrDefaultListen
  | ErrMulticastAndUnicast
  | ErrUpdateFailed

text \<open>
  The loop of \<open>listenMulticast\<close> over the interfaces: \<open>conn\<close> is nil after a failed
  attempt, and the loop stops at the first success.
\<close>

fun listenMulticast_ifaces ::
    "net \<Rightarrow> memory \<Rightarrow> UDPAddr \<Rightarrow> Interface option list \<Rightarrow> memory \<times> nat option" where
  "listenMulticast_ifaces env m a [] = (m, None)"
| "listenMulticast_ifaces env m a (None # rest) = listenMulticast_ifaces env m a rest"
| "listenMulticast_ifaces env m a (Some iface # rest) =
     (case ListenMulticastUDP env m (Some iface) a of
        (m', Some c) \<Rightarrow> (m', Some c)
      | (m', None) \<Rightarrow> listenMulticast_ifaces env m' a rest)"

text \<open>
  \<open>listenMulticast\<close>. The call \<open>conn.SetReadBuffer\<close> at its end changes nothing that is
  modelled, and its result is discarded by the source.
\<close>

definition listenMulticast ::
    "net \<Rightarrow> memory \<Rightarrow> UDPAddr option \<Rightarrow> Interface option list \<Rightarrow> memory \<times> (hub_error + nat)" where
  "listenMulticast env m addr ifaces =
     (case addr of
        None \<Rightarrow> (m, Inl ErrOnlyMulticast)
      | Some a \<Rightarrow>
          if IP a = None \<or> \<not> isMulticast (IP a) then (m, Inl ErrOnlyMulticast)
          else if ifaces = [] then
            (case ListenMulticastUDP env m None a of
               (m1, Some c) \<Rightarrow> (m1, Inr c)
             | (m1, None) \<Rightarrow>
                 (case ListenUDP env m1 a of
                    (m2, Some c) \<Rightarrow> (m2, Inr c)
                  | (m2, None) \<Rightarrow> (m2, Inl ErrDefaultListen)))
          else
            (case listenMulticast_ifaces env m a ifaces of
               (m1, Some c) \<Rightarrow> (m1, Inr c)
             | (m1, None) \<Rightarrow>
                 (case ListenUDP env m1 a of
                    (m2, Some c) \<Rightarrow> (m2, Inr c)
                  | (m2, None) \<Rightarrow> (m2, Inl ErrMulticastAndUnicast))))"

subsection \<open>The hub\<close>

record hubClient =
  ch :: "nat option"
  connID :: string

text \<open>
  Modelled from the spec: the constants \<open>StateStopped\<close>, \<open>StatePlaying\<close> and \<open>StateError\<close>
  are declared in a file of package \<open>stream\<close> that is not among the sources; their values
  are those of the comment at the head of \<open>udp_rtp.go\<close> and of the state list of the
  specification (0: stopped, 1: playing, 2: error).
\<close>

definition StateStopped :: int where "StateStopped = 0"
definition StatePlaying :: int where "StatePlaying = 1"
definition StateError :: int where "StateError = 2"

text \<open>
  The closure stored in \<open>OnEmpty\<close>. The only one the sources install is that of
  \<open>GetOrCreateHub\<close>, which captures \<open>ifaces\<close> and calls
  \<open>GlobalMultiChannelHub.RemoveHubEx(h.AddrList[0], ifaces)\<close>.
\<close>

datatype on_empty = RemoveFromRegistry "string list"

datatype goroutine =
    RunLoop
  | ReadLoop "nat option" string
  | SendInitial "nat option"

text \<open>
  \<open>StreamHub\<close>. \<open>Clients\<close> is a Go map that may be nil (\<open>None\<close>): a list of pairs with
  distinct keys, whose order stands for the iteration order of the map. \<open>Closed\<close> is a
  channel of \<open>struct{}\<close> on which nothing is ever sent: \<open>None\<close> is nil, \<open>Some b\<close> tells
  whether it has been closed. \<open>UdpConns\<close> is a slice of pointers that may be nil.
  \<open>PacketCount\<close> and \<open>DropCount\<close> are \<open>uint64\<close>. The mutex, the condition variable, the
  buffer pool and the queues \<open>AddCh\<close> and \<open>RemoveCh\<close> are not fields of the model: the
  control loop takes the value it has received as an argument.
\<close>

record StreamHub =
  Clients :: "(string \<times> hubClient) list option"
  UdpConns :: "nat option list"
  Closed :: "bool option"
  LastFrame :: frame
  CacheBuffer :: "RingBuffer option"
  AddrList :: "string list"
  PacketCount :: "64 word"
  DropCount :: "64 word"
  state :: int
  OnEmpty :: "on_empty option"
  Spawned :: "goroutine list"

text \<open>\<open>len(h.Clients)\<close>; the length of a nil map is 0.\<close>

definition len_Clients :: "StreamHub \<Rightarrow> int" where
  "len_Clients h = (case Clients h of None \<Rightarrow> 0 | Some cs \<Rightarrow> len cs)"

text \<open>The entries a \<open>range\<close> over \<open>h.Clients\<close> visits; none for a nil map.\<close>

definition range_Clients :: "StreamHub \<Rightarrow> (string \<times> hubClient) list" where
  "range_Clients h = (case Clients h of None \<Rightarrow> [] | Some cs \<Rightarrow> cs)"

definition IsClosed :: "StreamHub \<Rightarrow> bool" where
  "IsClosed h = (case Closed h of None \<Rightarrow> False | Some b \<Rightarrow> b)"

text \<open>
  \<open>startReadLoops\<close>: one receive loop for each connection, on the address
  \<open>AddrList[idx % len(AddrList)]\<close>.
\<close>

fun startReadLoops_from :: "StreamHub \<Rightarrow> int \<Rightarrow> nat option list \<Rightarrow> StreamHub option" where
  "startReadLoops_from h idx [] = Some h"
| "startReadLoops_from h idx (c # rest) =
     (case go_rem idx (len (AddrList h)) of
        None \<Rightarrow> None
      | Some j \<Rightarrow>
         (case index_expr (AddrList h) j of
            None \<Rightarrow> None
          | Some hubAddr \<Rightarrow>
              startReadLoops_from (h\<lparr>Spawned := Spawned h @ [ReadLoop c hubAddr]\<rparr>)
                (idx + 1) rest))"

definition startReadLoops :: "StreamHub \<Rightarrow> StreamHub option" where
  "startReadLoops h = startReadLoops_from h 0 (UdpConns h)"

text \<open>
  The loop over the interface names that \<open>NewStreamHub\<close> and \<open>UpdateInterfaces\<close> both
  run for one resolved address: the first interface that exists and binds wins.
\<close>

fun listen_on_names ::
    "net \<Rightarrow> memory \<Rightarrow> UDPAddr \<Rightarrow> string list \<Rightarrow> memory \<times> nat option" where
  "listen_on_names env m a [] = (m, None)"
| "listen_on_names env m a (name # rest) =
     (case InterfaceByName env name of
        None \<Rightarrow> listen_on_names env m a rest
      | Some iface \<Rightarrow>
         (case listenMulticast env m (Some a) [Some iface] of
            (m', Inr c) \<Rightarrow> (m', Some c)
          | (m', Inl e) \<Rightarrow> listen_on_names env m' a rest))"



subsection \<open>Broadcast\<close>

text \<open>
  The body of the loop of \<open>broadcast\<close> for one client: the non-blocking send, and in its
  default branch the drop counter and, on every drop whose count is a multiple of 100,
  the removal of one pending frame and the non-blocking send of \<open>LastFrame\<close>. A send on
  a nil channel and a receive from it block, so that the default branch of the
  \<open>select\<close> is taken.
\<close>

definition broadcast_resync :: "StreamHub \<Rightarrow> memory \<Rightarrow> hubClient \<Rightarrow> memory option" where
  "broadcast_resync h m client =
     (case ch client of
        None \<Rightarrow> Some m
      | Some r \<Rightarrow>
          (case LastFrame h of
             None \<Rightarrow> Some (m\<lparr>chans := (chans m)(r := try_recv (chans m r))\<rparr>)
           | Some f \<Rightarrow>
              (case try_send (try_recv (chans m r)) (LastFrame h) of
                 None \<Rightarrow> None
               | Some (sent, c) \<Rightarrow> Some (m\<lparr>chans := (chans m)(r := c)\<rparr>))))"

definition broadcast_drop :: "StreamHub \<Rightarrow> memory \<Rightarrow> hubClient \<Rightarrow> (StreamHub \<times> memory) option" where
  "broadcast_drop h m client =
     (let h' = h\<lparr>DropCount := DropCount h + 1\<rparr> in
      if DropCount h' mod 100 = 0 then
        (case broadcast_resync h' m client of
           None \<Rightarrow> None
         | Some m' \<Rightarrow> Some (h', m'))
      else Some (h', m))"

definition broadcast_send ::
    "frame \<Rightarrow> StreamHub \<Rightarrow> memory \<Rightarrow> hubClient \<Rightarrow> (StreamHub \<times> memory) option" where
  "broadcast_send data h m client =
     (case ch client of
        None \<Rightarrow> broadcast_drop h m client
      | Some r \<Rightarrow>
          (case try_send (chans m r) data of
             None \<Rightarrow> None
           | Some (True, c) \<Rightarrow> Some (h, m\<lparr>chans := (chans m)(r := c)\<rparr>)
           | Some (False, c) \<Rightarrow> broadcast_drop h m client))"

fun broadcast_clients ::
    "frame \<Rightarrow> StreamHub \<Rightarrow> memory \<Rightarrow> (string \<times> hubClient) list \<Rightarrow> (StreamHub \<times> memory) option" where
  "broadcast_clients data h m [] = Some (h, m)"
| "broadcast_clients data h m ((k, client) # rest) =
     (case broadcast_send data h m client of
        None \<Rightarrow> None
      | Some (h', m') \<Rightarrow> broadcast_clients data h' m' rest)"

text \<open>
  \<open>broadcast\<close>: under the lock the counters, \<open>LastFrame\<close>, the ring and the state are
  updated and the clients map is copied; the frame is then sent to each client of the
  copy. \<open>stateCond.Broadcast()\<close> has no effect on the modelled state.
\<close>

definition broadcast :: "StreamHub \<Rightarrow> memory \<Rightarrow> frame \<Rightarrow> (StreamHub \<times> memory) option" where
  "broadcast h m data =
     (case (Closed h, CacheBuffer h, Clients h) of
        (Some b, Some rb, Some clients) \<Rightarrow>
          (case Push rb data of
             None \<Rightarrow> None
           | Some rb' \<Rightarrow>
               broadcast_clients data
                 (h\<lparr>PacketCount := PacketCount h + 1, LastFrame := data, CacheBuffer := Some rb',
                    state := (if state h \<noteq> StatePlaying then StatePlaying else state h)\<rparr>)
                 m clients)
      | _ \<Rightarrow> Some (h, m))"

subsection \<open>Close\<close>

text \<open>\<open>close(client.ch)\<close>: closing a nil channel panics.\<close>

definition close_ch :: "memory \<Rightarrow> nat option \<Rightarrow> memory option" where
  "close_ch m c =
     (case c of None \<Rightarrow> None
      | Some r \<Rightarrow>
         (case close_chan (chans m r) of
            None \<Rightarrow> None
          | Some c' \<Rightarrow> Some (m\<lparr>chans := (chans m)(r := c')\<rparr>)))"

text \<open>
  The loop of \<open>Close\<close> over the clients:
  \<open>if client.ch != nil { close(client.ch) }; delete(h.Clients, id)\<close>.
\<close>

fun Close_clients :: "memory \<Rightarrow> (string \<times> hubClient) list \<Rightarrow> memory option" where
  "Close_clients m [] = Some m"
| "Close_clients m ((k, client) # rest) =
     (if ch client \<noteq> None then
        (case close_ch m (ch client) of
           None \<Rightarrow> None
         | Some m' \<Rightarrow> Close_clients m' rest)
      else Close_clients m rest)"

text \<open>
  \<open>Close\<close>. The \<open>select\<close> at its head returns when \<open>Closed\<close> is already closed and closes
  it otherwise (closing a nil channel panics). The last statement logs \<open>h.AddrList[0]\<close>,
  which panics on an empty list.
\<close>

definition Close :: "StreamHub \<Rightarrow> memory \<Rightarrow> (StreamHub \<times> memory) option" where
  "Close h m =
     (case Closed h of
        None \<Rightarrow> None
      | Some True \<Rightarrow> Some (h, m)
      | Some False \<Rightarrow>
         (case Close_clients (fold close_conn (UdpConns h) m) (range_Clients h) of
            None \<Rightarrow> None
          | Some m' \<Rightarrow>
             (case index_expr (AddrList h) 0 of
                None \<Rightarrow> None
              | Some a \<Rightarrow>
                  Some (h\<lparr>Closed := Some True, UdpConns := [], Clients := None,
                          CacheBuffer := None, LastFrame := None, state := StateStopped\<rparr>,
                        m'))))"

subsection \<open>The control loop\<close>


text \<open>
  The first statement of the \<open>RemoveCh\<close> case:
  \<open>if client, ok := h.Clients[connID]; ok { delete(h.Clients, connID); close(client.ch) }\<close>.
\<close>

definition run_RemoveCh_delete :: "StreamHub \<Rightarrow> memory \<Rightarrow> string \<Rightarrow> (StreamHub \<times> memory) option" where
  "run_RemoveCh_delete h m cid =
     (case Clients h of
        None \<Rightarrow> Some (h, m)
      | Some cs \<Rightarrow>
         (case map_of cs cid of
            None \<Rightarrow> Some (h, m)
          | Some client \<Rightarrow>
             (case close_ch m (ch client) of
                None \<Rightarrow> None
              | Some m' \<Rightarrow> Some (h\<lparr>Clients := Some (AList.delete cid cs)\<rparr>, m'))))"

text \<open>The loop of the \<open>Closed\<close> case: \<open>close(client.ch)\<close> for every client.\<close>

fun run_Closed_clients :: "memory \<Rightarrow> (string \<times> hubClient) list \<Rightarrow> memory option" where
  "run_Closed_clients m [] = Some m"
| "run_Closed_clients m ((k, client) # rest) =
     (case close_ch m (ch client) of
        None \<Rightarrow> None
      | Some m' \<Rightarrow> run_Closed_clients m' rest)"

definition run_Closed :: "StreamHub \<Rightarrow> memory \<Rightarrow> (StreamHub \<times> memory) option" where
  "run_Closed h m =
     (case run_Closed_clients m (range_Clients h) of
        None \<Rightarrow> None
      | Some m' \<Rightarrow> Some (h\<lparr>Clients := None\<rparr>, m'))"

subsection \<open>UpdateInterfaces\<close>

text \<open>The loop of \<open>UpdateInterfaces\<close> over \<open>h.AddrList\<close>; \<open>acc\<close> is \<open>newConns\<close>.\<close>

fun UpdateInterfaces_addrs ::
    "net \<Rightarrow> memory \<Rightarrow> string list \<Rightarrow> string list \<Rightarrow> nat option list \<Rightarrow> memory \<times> nat option list" where
  "UpdateInterfaces_addrs env m ifaces [] acc = (m, acc)"
| "UpdateInterfaces_addrs env m ifaces (addr # rest) acc =
     (case ResolveUDPAddr env addr of
        None \<Rightarrow> UpdateInterfaces_addrs env m ifaces rest acc
      | Some udpAddr \<Rightarrow>
         (case listen_on_names env m udpAddr ifaces of
            (m1, Some c) \<Rightarrow> UpdateInterfaces_addrs env m1 ifaces rest (acc @ [Some c])
          | (m1, None) \<Rightarrow>
             (case listenMulticast env m1 (Some udpAddr) [] of
                (m2, Inl e) \<Rightarrow> UpdateInterfaces_addrs env m2 ifaces rest acc
              | (m2, Inr c) \<Rightarrow> UpdateInterfaces_addrs env m2 ifaces rest (acc @ [Some c]))))"

text \<open>
  The loop \<open>for _, conn := range h.UdpConns { _ = conn.Close() }\<close> of \<open>UpdateInterfaces\<close>,
  which has no nil test: \<open>Close\<close> is a method of the struct embedded in \<open>net.UDPConn\<close>, so
  the call through a nil pointer dereferences it and panics.
\<close>

fun UpdateInterfaces_close :: "memory \<Rightarrow> nat option list \<Rightarrow> memory option" where
  "UpdateInterfaces_close m [] = Some m"
| "UpdateInterfaces_close m (None # rest) = None"
| "UpdateInterfaces_close m (Some r # rest) = UpdateInterfaces_close (close_conn (Some r) m) rest"

text \<open>\<open>UpdateInterfaces\<close> returns the error, or \<open>None\<close> for \<open>nil\<close>.\<close>

definition UpdateInterfaces ::
    "net \<Rightarrow> StreamHub \<Rightarrow> memory \<Rightarrow> string list \<Rightarrow> (StreamHub \<times> memory \<times> hub_error option) option" where
  "UpdateInterfaces env h m ifaces =
     (case UpdateInterfaces_addrs env m ifaces (AddrList h) [] of
        (m1, newConns) \<Rightarrow>
          if newConns = [] then Some (h, m1, Some ErrUpdateFailed)
          else
            (case UpdateInterfaces_close m1 (UdpConns h) of
               None \<Rightarrow> None
             | Some m2 \<Rightarrow>
                (case startReadLoops (h\<lparr>UdpConns := newConns\<rparr>) of
                   None \<Rightarrow> None
                 | Some h' \<Rightarrow> Some (h', m2, None))))"

subsection \<open>Notions used in the statements about the hub\<close>

text \<open>
  The channels of the clients of a table that are not nil, in the order of the table, and
  the store in which \<open>close\<close> has been called once on each channel of a list.
\<close>

fun client_chans :: "(string \<times> hubClient) list \<Rightarrow> nat list" where
  "client_chans [] = []"
| "client_chans ((k, client) # rest) =
     (case ch client of None \<Rightarrow> client_chans rest | Some r \<Rightarrow> r # client_chans rest)"

definition closed_once :: "nat list \<Rightarrow> memory \<Rightarrow> memory" where
  "closed_once rs m =
     m\<lparr>chans := (\<lambda>r. if r \<in> set rs
                       then (chans m r)\<lparr>closed := True, nclose := nclose (chans m r) + 1\<rparr>
                       else chans m r)\<rparr>"

text \<open>The receive loops that \<open>startReadLoops\<close> starts for the connections \<open>cs\<close>, from index \<open>i\<close>.\<close>

fun read_loops :: "string list \<Rightarrow> nat \<Rightarrow> nat option list \<Rightarrow> goroutine list" where
  "read_loops addrs i [] = []"
| "read_loops addrs i (c # cs) =
     ReadLoop c (addrs ! (i mod length addrs)) # read_loops addrs (Suc i) cs"

section \<open>The registry of hubs\<close>

text \<open>
  \<open>GetOrCreateHub\<close> returns a pointer to a hub, and two calls may return the same
  pointer: the hubs live in a store of their own, \<open>hubs\<close>, in which \<open>nhubs\<close> is the next
  free reference. \<open>Hubs\<close> is the map of \<open>GlobalMultiChannelHub\<close>, the only
  \<open>MultiChannelHub\<close> the program creates, from keys to hub references. The closure that
  \<open>GetOrCreateHub\<close> installs in \<open>OnEmpty\<close> works on \<open>GlobalMultiChannelHub\<close> whatever
  the receiver of \<open>GetOrCreateHub\<close> is; the model has the global registry only.
\<close>

record world =
  mem :: memory
  hubs :: "nat \<Rightarrow> StreamHub"
  nhubs :: nat
  Hubs :: "(string \<times> nat) list"

text \<open>\<open>strings.Join\<close> of the standard library.\<close>

fun Join :: "string list \<Rightarrow> string \<Rightarrow> string" where
  "Join [] sep = []"
| "Join [x] sep = x"
| "Join (x # y # rest) sep = x @ sep @ Join (y # rest) sep"

definition HubKey :: "net \<Rightarrow> string \<Rightarrow> string list \<Rightarrow> string" where
  "HubKey env udpAddr ifaces =
     md5_hex env (if len ifaces > 0 then udpAddr @ ''@'' @ Join ifaces '','' else udpAddr)"

text \<open>A method of the hub at reference \<open>p\<close>, run on the world.\<close>

definition Close_hub :: "world \<Rightarrow> nat \<Rightarrow> world option" where
  "Close_hub w p =
     (case Close (hubs w p) (mem w) of
        None \<Rightarrow> None
      | Some (h', m') \<Rightarrow> Some (w\<lparr>mem := m', hubs := (hubs w)(p := h')\<rparr>))"

definition RemoveHubEx :: "net \<Rightarrow> world \<Rightarrow> string \<Rightarrow> string list \<Rightarrow> world option" where
  "RemoveHubEx env w udpAddr ifaces =
     (case map_of (Hubs w) (HubKey env udpAddr ifaces) of
        None \<Rightarrow> Some w
      | Some p \<Rightarrow>
          Close_hub (w\<lparr>Hubs := AList.delete (HubKey env udpAddr ifaces) (Hubs w)\<rparr>) p)"

text \<open>
  \<open>if h.OnEmpty != nil { h.OnEmpty(h) }\<close>, with the closure of \<open>GetOrCreateHub\<close>:
  \<open>GlobalMultiChannelHub.RemoveHubEx(h.AddrList[0], ifaces)\<close>.
\<close>

definition call_OnEmpty :: "net \<Rightarrow> world \<Rightarrow> nat \<Rightarrow> world option" where
  "call_OnEmpty env w p =
     (case OnEmpty (hubs w p) of
        None \<Rightarrow> Some w
      | Some (RemoveFromRegistry ifaces) \<Rightarrow>
         (case index_expr (AddrList (hubs w p)) 0 of
            None \<Rightarrow> None
          | Some a \<Rightarrow> RemoveHubEx env w a ifaces))"


datatype run_status = Running | Returned

definition run_RemoveCh :: "net \<Rightarrow> world \<Rightarrow> nat \<Rightarrow> string \<Rightarrow> (world \<times> run_status) option" where
  "run_RemoveCh env w p cid =
     (case run_RemoveCh_delete (hubs w p) (mem w) cid of
        None \<Rightarrow> None
      | Some (h1, m1) \<Rightarrow>
          if len_Clients h1 = 0 then
            (case Close_hub (w\<lparr>mem := m1, hubs := (hubs w)(p := h1)\<rparr>) p of
               None \<Rightarrow> None
             | Some w2 \<Rightarrow>
                (case call_OnEmpty env w2 p of
                   None \<Rightarrow> None
                 | Some w3 \<Rightarrow> Some (w3, Returned)))
          else Some (w\<lparr>mem := m1, hubs := (hubs w)(p := h1)\<rparr>, Running))"





subsection \<open>Notions used in the statements about the registry\<close>



section \<open>Example states\<close>

text \<open>
  Concrete states on which the theorems below are instantiated. \<open>ex_full_chan\<close> is a
  client queue of capacity 4096 that holds 4096 frames; \<open>ex_hub\<close> is a hub as
  \<open>NewStreamHub\<close> builds it for the address \<open>239.0.0.1:1234\<close>, with one client
  \<open>c1\<close> attached on channel 0 and one socket, connection 0.
\<close>

definition ex_full_chan :: chan where
  "ex_full_chan = \<lparr>items = replicate 4096 (Some [0x47]), cap = 4096, closed = False, nclose = 0\<rparr>"

definition ex_addr :: UDPAddr where
  "ex_addr = \<lparr>IP = Some [239, 0, 0, 1], Port = 1234\<rparr>"

definition ex_conn :: conn where
  "ex_conn = \<lparr>laddr = ex_addr, via = None, multicast = True, is_open = True\<rparr>"

definition ex_mem :: memory where
  "ex_mem = \<lparr>chans = (\<lambda>r. ex_full_chan), conns = (\<lambda>r. ex_conn), nconns = 1\<rparr>"

definition ex_client :: hubClient where
  "ex_client = \<lparr>ch = Some 0, connID = ''c1''\<rparr>"

definition ex_ring :: RingBuffer where
  "ex_ring = \<lparr>buf = replicate 8192 None, size_rb = 8192, start = 0, count = 0\<rparr>"

definition ex_hub :: StreamHub where
  "ex_hub =
     \<lparr>Clients = Some [(''c1'', ex_client)], UdpConns = [Some 0], Closed = Some False,
      LastFrame = None, CacheBuffer = Some ex_ring, AddrList = [''239.0.0.1:1234''],
      PacketCount = 0, DropCount = 0, state = StatePlaying, OnEmpty = None,
      Spawned = [RunLoop, ReadLoop (Some 0) ''239.0.0.1:1234'']\<rparr>"

text \<open>The queue of channel \<open>r\<close> after a step that has not panicked.\<close>

definition queue_after :: "(StreamHub \<times> memory) option \<Rightarrow> nat \<Rightarrow> frame list option" where
  "queue_after res r = (case res of None \<Rightarrow> None | Some (h, m) \<Rightarrow> Some (items (chans m r)))"

text \<open>
  An environment in which every bind would succeed: \<open>239.0.0.1:1234\<close> resolves to a
  multicast address and \<open>192.168.1.10:5000\<close> to a unicast one, \<open>eth0\<close> is the only
  interface, and the fingerprint of a key is the key itself.
\<close>

definition ex_unicast_addr :: UDPAddr where
  "ex_unicast_addr = \<lparr>IP = Some [192, 168, 1, 10], Port = 5000\<rparr>"

definition ex_env :: net where
  "ex_env =
     \<lparr>ResolveUDPAddr = (\<lambda>s. if s = ''239.0.0.1:1234'' then Some ex_addr
                            else if s = ''192.168.1.10:5000'' then Some ex_unicast_addr
                            else None),
      InterfaceByName = (\<lambda>n. if n = ''eth0'' then Some \<lparr>Index = 2, Name = ''eth0''\<rparr> else None),
      multicast_ok = (\<lambda>m ifi a. True),
      unicast_ok = (\<lambda>m a. True),
      md5_hex = (\<lambda>s. s)\<rparr>"

text \<open>
  \<open>ex_idle_hub\<close> is the hub of \<open>ex_hub\<close> with no client attached and the callback that
  \<open>GetOrCreateHub\<close> installs; \<open>ex_world\<close> holds it at reference 0, registered under the
  key of \<open>239.0.0.1:1234\<close> with no interface. \<open>ex_empty_world\<close> has no hub, no socket and
  an empty registry; its channels are empty queues of capacity 4096.
\<close>

definition ex_idle_hub :: StreamHub where
  "ex_idle_hub = ex_hub\<lparr>Clients := Some [], OnEmpty := Some (RemoveFromRegistry [])\<rparr>"

definition ex_world :: world where
  "ex_world = \<lparr>mem = ex_mem, hubs = (\<lambda>p. ex_idle_hub), nhubs = 1,
                Hubs = [(''239.0.0.1:1234'', 0)]\<rparr>"



section \<open>Proofs: the RTP payload extractor\<close>

lemma uint_byte_le: "uint (w :: byte) \<le> 255"
  using uint_lt2p[of w] by simp

lemma index0: "bs \<noteq> [] \<Longrightarrow> index_expr bs 0 = Some (bs ! 0)"
  by (simp add: index_expr_def)

lemma ext_total: "bs \<noteq> [] \<Longrightarrow> 0 \<le> st \<Longrightarrow> \<exists>r. rtpPayloadGet_ext bs st = Some r"
  apply (simp add: rtpPayloadGet_ext_def index0 Let_def)
  apply (auto simp: slice_expr_def BigEndian_Uint16_def index_expr_def)
  done

lemma ext_ge: "rtpPayloadGet_ext bs st = Some (Inr s) \<Longrightarrow> st \<le> s"
  by (auto simp: rtpPayloadGet_ext_def Let_def split: if_splits bind_splits)

lemma pad_total: "bs \<noteq> [] \<Longrightarrow> \<exists>e. rtpPayloadGet_pad bs = Some e"
  by (simp add: rtpPayloadGet_pad_def index0 Let_def index_expr_def)

lemma pad_range: "rtpPayloadGet_pad bs = Some e \<Longrightarrow> 0 \<le> e \<and> e \<le> 255"
  by (auto simp: rtpPayloadGet_pad_def Let_def uint_byte_le split: if_splits bind_splits)

lemma rtpPayloadGet_total: "\<exists>r. rtpPayloadGet bs = Some r"
proof (cases "len bs < 12")
  case True
  then show ?thesis by (simp add: rtpPayloadGet_def)
next
  case False
  then have ne: "bs \<noteq> []" by auto
  obtain r where r: "rtpPayloadGet_ext bs (12 + 4 * uint (bs ! 0 AND 0x0F)) = Some r"
    using ext_total[OF ne, of "12 + 4 * uint (bs ! 0 AND 0x0F)"] by auto
  obtain e where e: "rtpPayloadGet_pad bs = Some e"
    using pad_total[OF ne] by auto
  show ?thesis using False r e
    by (cases r) (simp_all add: rtpPayloadGet_def index0[OF ne] Let_def)
qed

lemma rtpPayloadGet_Inr:
  assumes "rtpPayloadGet bs = Some (Inr (s, e))"
  shows "12 \<le> len bs \<and> 12 \<le> s \<and> 0 \<le> e \<and> e \<le> 255 \<and> s + e \<le> len bs
         \<and> drop_bit 6 (bs ! 0) AND 0x03 = RTP_VERSION"
  using assms
  apply (auto simp: rtpPayloadGet_def Let_def split: if_splits bind_splits sum.splits dest!: ext_ge pad_range)
  apply (auto simp: index_expr_def split: if_splits)
  subgoal using uint_ge_0[of "bs ! 0 AND 15"] by linarith
  done

lemma skip_total:
  "2 \<le> len data \<Longrightarrow> \<exists>s'. processRTPPacket_skip data s e = Some s' \<and> (s' = s \<or> s' = s + 4 \<and> s + 4 < len data - e)"
  by (auto simp: processRTPPacket_skip_def index_expr_def Let_def)

lemma copy_full: "length dst = length src \<Longrightarrow> copy dst src = src"
  by (simp add: copy_def)

lemma payload_cases:
  assumes "0 \<le> s" "0 \<le> e"
  shows "processRTPPacket_payload data s e =
     Some (if 188 \<le> len data - s - e then Fresh (take (nat (len data - s - e)) (drop (nat s) data)) else Same data)"
proof (cases "188 \<le> len data - s - e")
  case False
  then show ?thesis by (simp add: processRTPPacket_payload_def)
next
  case True
  have eq: "len data - e - s = len data - s - e" by simp
  have m: "make_bytes (len data - s - e) = Some (replicate (nat (len data - s - e)) 0)"
    using True by (simp add: make_bytes_def)
  have sl: "slice_expr data s (len data - e) = Some (take (nat (len data - s - e)) (drop (nat s) data))"
    using True assms by (simp add: slice_expr_def eq)
  have "length (take (nat (len data - s - e)) (drop (nat s) data)) = nat (len data - s - e)"
    using True assms by simp
  then have cp: "copy (replicate (nat (len data - s - e)) 0) (take (nat (len data - s - e)) (drop (nat s) data))
      = take (nat (len data - s - e)) (drop (nat s) data)"
    by (intro copy_full) simp
  show ?thesis using True assms
    by (simp add: processRTPPacket_payload_def m sl cp)
qed

lemma processRTPPacket_shape:
  "\<exists>r. processRTPPacket data = Some r \<and>
     (r = Same data \<or>
      (\<exists>s e s'. rtpPayloadGet data = Some (Inr (s, e)) \<and> (s' = s \<or> s' = s + 4) \<and>
          r = Fresh (take (nat (len data - s' - e)) (drop (nat s') data)) \<and>
          188 \<le> len data - s' - e))"
proof (cases "len data < 188 \<or> data ! 0 = 0x47 \<or> drop_bit 6 (data ! 0) AND 0x03 \<noteq> RTP_VERSION")
  case True
  then show ?thesis
    by (auto simp: processRTPPacket_def index_expr_def Let_def)
next
  case False
  then have l: "188 \<le> len data" and ne: "data \<noteq> []" by auto
  obtain r where r: "rtpPayloadGet data = Some r" using rtpPayloadGet_total by blast
  show ?thesis
  proof (cases r)
    case (Inl err)
    with False r show ?thesis by (simp add: processRTPPacket_def index0[OF ne] Let_def)
  next
    case (Inr p)
    obtain s e where p: "p = (s, e)" by (cases p)
    from r Inr p have g: "rtpPayloadGet data = Some (Inr (s, e))" by simp
    from rtpPayloadGet_Inr[OF g] have b: "12 \<le> s" "0 \<le> e" by auto
    from l have "2 \<le> len data" by simp
    from skip_total[OF this, of s e] obtain s' where
      s': "processRTPPacket_skip data s e = Some s'" "s' = s \<or> s' = s + 4" by blast
    with b have "0 \<le> s'" by auto
    from payload_cases[OF this b(2), of data]
    have "processRTPPacket data = Some (if 188 \<le> len data - s' - e
             then Fresh (take (nat (len data - s' - e)) (drop (nat s') data)) else Same data)"
      using False g s'(1) by (simp add: processRTPPacket_def index0[OF ne] Let_def)
    with g s'(2) show ?thesis by auto
  qed
qed

lemma be16: "uint ((ucast (b1::byte) :: 16 word) OR push_bit 8 (ucast (b0::byte) :: 16 word)) = 256 * uint b0 + uint b1"
proof -
  have disj: "(ucast b1 :: 16 word) AND push_bit 8 (ucast b0 :: 16 word) = 0"
    by (rule bit_eqI) (auto simp: bit_simps dest: bit_imp_le_length)
  have "(ucast b1 :: 16 word) OR push_bit 8 (ucast b0 :: 16 word) = ucast b1 + push_bit 8 (ucast b0)"
    using disjunctive_add_eq_or[OF disj] by simp
  moreover have "uint (ucast b1 + push_bit 8 (ucast b0) :: 16 word) = 256 * uint b0 + uint b1"
  proof -
    have a: "uint b0 < 256" "uint b1 < 256" using uint_lt2p[of b0] uint_lt2p[of b1] by simp_all
    have b: "0 \<le> uint b0" "0 \<le> uint b1" by simp_all
    have "uint (ucast b1 + push_bit 8 (ucast b0) :: 16 word) = (uint b1 + uint b0 * 256) mod 65536"
      by (simp add: uint_word_ariths push_bit_eq_mult uint_up_ucast is_up mod_simps)
    also have "\<dots> = uint b1 + 256 * uint b0" using a b by simp
    finally show ?thesis by simp
  qed
  ultimately show ?thesis by simp
qed


lemma spec_cc_ge: "0 \<le> spec_cc d"
  by (simp add: spec_cc_def)

lemma ext_spec:
  assumes "12 \<le> len d" "spec_has_ext d \<Longrightarrow> 12 + 4 * spec_cc d + 4 \<le> len d"
  shows "rtpPayloadGet_ext d (12 + 4 * spec_cc d) = Some (Inr (spec_header_len d))"
proof (cases "spec_has_ext d")
  case False
  from assms(1) have "d \<noteq> []" by auto
  with False assms show ?thesis
    by (simp add: rtpPayloadGet_ext_def index_expr_def spec_header_len_def spec_has_ext_def Let_def)
next
  case True
  define st where "st = 12 + 4 * spec_cc d"
  have st: "0 \<le> st" "st + 4 \<le> len d" using True assms spec_cc_ge[of d] by (auto simp: st_def)
  have sl: "slice_expr d (st + 2) (st + 4) = Some [d ! nat (st + 2), d ! nat (st + 3)]"
  proof -
    have n: "nat (st + 2) < length d" "nat (st + 3) < length d" "nat (st + 3) = Suc (nat (st + 2))"
      using st by auto
    have "take 2 (drop (nat (st + 2)) d) = [d ! nat (st + 2), d ! nat (st + 3)]"
      using n by (simp add: take_Suc_conv_app_nth numeral_2_eq_2 hd_drop_conv_nth take_Suc drop_Suc nth_tl Cons_nth_drop_Suc[symmetric])
    then show ?thesis using st by (simp add: slice_expr_def)
  qed
  have u: "BigEndian_Uint16 [d ! nat (st + 2), d ! nat (st + 3)]
      = Some (ucast (d ! nat (st + 3)) OR push_bit 8 (ucast (d ! nat (st + 2))))"
    by (simp add: BigEndian_Uint16_def index_expr_def)
  from assms(1) have "d \<noteq> []" by auto
  then show ?thesis using True st assms(1)
    unfolding st_def[symmetric]
    apply (simp add: rtpPayloadGet_ext_def index_expr_def Let_def sl u be16)
    apply (simp add: spec_has_ext_def spec_header_len_def spec_ext_len_def st_def)
    done
qed

lemma pad_spec:
  assumes "12 \<le> len d"
  shows "rtpPayloadGet_pad d = Some (spec_pad d)"
proof -
  from assms have ne: "d \<noteq> []" by auto
  then have "d ! nat (len d - 1) = last d"
    by (simp add: last_conv_nth nat_diff_distrib')
  with assms ne show ?thesis
    by (simp add: rtpPayloadGet_pad_def index_expr_def spec_pad_def Let_def)
qed

lemma rtpPayloadGet_spec:
  assumes "spec_well_formed d"
  shows "rtpPayloadGet d = Some (Inr (spec_header_len d, spec_pad d))"
proof -
  from assms have l: "12 \<le> len d" and v: "drop_bit 6 (d ! 0) AND 0x03 = 2"
    and f: "spec_header_len d + spec_pad d \<le> len d"
    by (simp_all add: spec_well_formed_def)
  from assms have x: "spec_has_ext d \<Longrightarrow> 12 + 4 * spec_cc d + 4 \<le> len d"
    by (simp add: spec_well_formed_def split: if_splits)
  have e: "rtpPayloadGet_ext d (12 + 4 * uint (d ! 0 AND 0x0F)) = Some (Inr (spec_header_len d))"
    using ext_spec[OF l x] by (simp add: spec_cc_def)
  from l have "d \<noteq> []" by auto
  then show ?thesis using l v f
    by (simp add: rtpPayloadGet_def index_expr_def Let_def RTP_VERSION_def e pad_spec[OF l])
qed

lemma spec_header_len_ge: "spec_well_formed d \<Longrightarrow> 12 \<le> spec_header_len d"
  using rtpPayloadGet_Inr[OF rtpPayloadGet_spec] by blast

lemma spec_pad_ge: "0 \<le> spec_pad d"
  by (simp add: spec_pad_def)

lemma processRTPPacket_well_formed:
  assumes "188 \<le> len d" "d ! 0 \<noteq> 0x47" "spec_well_formed d"
    and "d ! 1 AND 0x7F \<noteq> 0x0E" "d ! 1 AND 0x7F \<noteq> 0x20"
  shows "processRTPPacket d =
     Some (if 188 \<le> len (spec_window d) then Fresh (spec_window d) else Same d)"
proof -
  from assms(1) have ne: "d \<noteq> []" by auto
  have v: "drop_bit 6 (d ! 0) AND 0x03 = RTP_VERSION"
    using assms(3) by (simp add: spec_well_formed_def RTP_VERSION_def)
  have g: "rtpPayloadGet d = Some (Inr (spec_header_len d, spec_pad d))"
    by (rule rtpPayloadGet_spec[OF assms(3)])
  have sk: "processRTPPacket_skip d (spec_header_len d) (spec_pad d) = Some (spec_header_len d)"
    using assms(1,4,5)
    by (simp add: processRTPPacket_skip_def index_expr_def Let_def P_MPGA_def P_MPGV_def)
  have h: "0 \<le> spec_header_len d" using spec_header_len_ge[OF assms(3)] by simp
  have fit: "spec_header_len d + spec_pad d \<le> len d"
    using assms(3) by (simp add: spec_well_formed_def)
  have wl: "len (spec_window d) = len d - spec_header_len d - spec_pad d"
    using h fit spec_pad_ge[of d] by (simp add: spec_window_def)
  have ws: "take (nat (len d - spec_header_len d - spec_pad d)) (drop (nat (spec_header_len d)) d)
      = spec_window d"
  proof -
    have "len d - spec_header_len d - spec_pad d = len d - spec_pad d - spec_header_len d"
      by simp
    then show ?thesis by (simp only: spec_window_def)
  qed
  have "processRTPPacket d = processRTPPacket_payload d (spec_header_len d) (spec_pad d)"
    using assms(1,2) v g sk by (simp add: processRTPPacket_def index0[OF ne] Let_def)
  also have "\<dots> = Some (if 188 \<le> len d - spec_header_len d - spec_pad d
       then Fresh (take (nat (len d - spec_header_len d - spec_pad d)) (drop (nat (spec_header_len d)) d))
       else Same d)"
    by (rule payload_cases[OF h spec_pad_ge])
  finally show ?thesis by (simp only: ws wl)
qed

text \<open>
  C1. For every well-formed RTP datagram \<open>d\<close> of at least 188 bytes whose first byte is
  not \<open>0x47\<close> and whose payload type is neither \<open>0x0E\<close> nor \<open>0x20\<close>, the extractor
  returns a newly allocated copy of \<open>d[header_len : len(d) - pad]\<close> when that window has at
  least 188 bytes, and \<open>d\<close> itself otherwise. In particular a 12-byte header
  \<open>0x80, pt, ...\<close> with payload type \<open>0x60\<close> followed by 188 bytes yields exactly those
  188 bytes, freshly allocated.
\<close>

theorem processRTPPacket_extracts_window:
  "(188 \<le> len d \<and> d ! 0 \<noteq> 0x47 \<and> spec_well_formed d \<and>
      d ! 1 AND 0x7F \<noteq> 0x0E \<and> d ! 1 AND 0x7F \<noteq> 0x20 \<longrightarrow>
      processRTPPacket d =
        Some (if 188 \<le> len (spec_window d) then Fresh (spec_window d) else Same d)) \<and>
   (length rest = 10 \<and> pt AND 0x7F = 0x60 \<and> length ts = 188 \<longrightarrow>
      processRTPPacket (0x80 # pt # rest @ ts) = Some (Fresh ts))"
proof (intro conjI impI)
  assume "188 \<le> len d \<and> d ! 0 \<noteq> 0x47 \<and> spec_well_formed d \<and>
      d ! 1 AND 0x7F \<noteq> 0x0E \<and> d ! 1 AND 0x7F \<noteq> 0x20"
  then show "processRTPPacket d =
        Some (if 188 \<le> len (spec_window d) then Fresh (spec_window d) else Same d)"
    by (simp add: processRTPPacket_well_formed)
next
  assume a: "length rest = 10 \<and> pt AND 0x7F = 0x60 \<and> length ts = 188"
  let ?d = "0x80 # pt # rest @ ts"
  have l: "len ?d = 200" using a by simp
  have cc: "spec_cc ?d = 0" by (simp add: spec_cc_def)
  have x: "\<not> spec_has_ext ?d" by (simp add: spec_has_ext_def)
  have h: "spec_header_len ?d = 12" by (simp add: spec_header_len_def cc x)
  have p: "spec_pad ?d = 0" by (simp add: spec_pad_def)
  have wf: "spec_well_formed ?d"
    unfolding spec_well_formed_def h p using l x by simp
  have w: "spec_window ?d = ts"
    unfolding spec_window_def h p using a by simp
  have "processRTPPacket ?d =
      Some (if 188 \<le> len (spec_window ?d) then Fresh (spec_window ?d) else Same ?d)"
    using a wf l by (intro processRTPPacket_well_formed) simp_all
  then show "processRTPPacket ?d = Some (Fresh ts)"
    unfolding w using a by simp
qed

theorem processRTPPacket_extracts_window_witness:
  "processRTPPacket (0x80 # 0x60 # replicate 10 0 @ replicate 188 0x47)
     = Some (Fresh (replicate 188 0x47))"
  using processRTPPacket_extracts_window
    [of "0x80 # 0x60 # replicate 10 0 @ replicate 188 0x47" "replicate 10 0" "0x60"
        "replicate 188 0x47"]
  by simp

text \<open>
  C9. On every input, \<open>rtpPayloadGet\<close> and \<open>processRTPPacket\<close> return without a panic
  (no index or slice expression is out of range), and \<open>processRTPPacket\<close> returns either
  the input slice itself or a freshly allocated slice whose length is
  \<open>len(data) - start - end\<close>, which is at least 188; here \<open>end\<close> is the end offset
  of \<open>rtpPayloadGet\<close> and \<open>start\<close> its start offset, plus 4 when the MPEG audio or
  video header is skipped.
\<close>

theorem rtp_extraction_never_panics:
  "(\<exists>g. rtpPayloadGet data = Some g) \<and>
   (\<exists>r. processRTPPacket data = Some r \<and>
     (r = Same data \<or>
      (\<exists>s e s' p. rtpPayloadGet data = Some (Inr (s, e)) \<and> (s' = s \<or> s' = s + 4) \<and>
          r = Fresh p \<and> len p = len data - s' - e \<and> 188 \<le> len p)))"
proof -
  from processRTPPacket_shape[of data] obtain r where
    r: "processRTPPacket data = Some r"
       "r = Same data \<or>
        (\<exists>s e s'. rtpPayloadGet data = Some (Inr (s, e)) \<and> (s' = s \<or> s' = s + 4) \<and>
          r = Fresh (take (nat (len data - s' - e)) (drop (nat s') data)) \<and>
          188 \<le> len data - s' - e)" by blast
  from r(2) have "r = Same data \<or>
      (\<exists>s e s' p. rtpPayloadGet data = Some (Inr (s, e)) \<and> (s' = s \<or> s' = s + 4) \<and>
          r = Fresh p \<and> len p = len data - s' - e \<and> 188 \<le> len p)"
  proof
    assume "r = Same data" then show ?thesis by simp
  next
    assume "\<exists>s e s'. rtpPayloadGet data = Some (Inr (s, e)) \<and> (s' = s \<or> s' = s + 4) \<and>
          r = Fresh (take (nat (len data - s' - e)) (drop (nat s') data)) \<and>
          188 \<le> len data - s' - e"
    then obtain s e s' where
      g: "rtpPayloadGet data = Some (Inr (s, e))" and s': "s' = s \<or> s' = s + 4"
      and f: "r = Fresh (take (nat (len data - s' - e)) (drop (nat s') data))"
      and w: "188 \<le> len data - s' - e" by blast
    from rtpPayloadGet_Inr[OF g] have "12 \<le> s" "0 \<le> e" by auto
    with s' have "0 \<le> s'" by auto
    with w \<open>0 \<le> e\<close>
    have "len (take (nat (len data - s' - e)) (drop (nat s') data)) = len data - s' - e"
      by simp
    with g s' f w show ?thesis by auto
  qed
  with r(1) rtpPayloadGet_total[of data] show ?thesis by blast
qed

section \<open>Proofs: the ring buffer\<close>

lemma smod_nonneg: "0 \<le> a \<Longrightarrow> 0 < b \<Longrightarrow> (a::int) smod b = a mod b"
  by (simp add: smod_int_alt_def sgn_if)

lemma go_rem_nonneg: "0 \<le> a \<Longrightarrow> 0 < b \<Longrightarrow> go_rem a b = Some (a mod b)"
  by (simp add: go_rem_def smod_nonneg)

lemma GetAll_loop_inv:
  assumes "ring_inv r N" "0 \<le> i" "i \<le> count r" "len out = count r"
  shows "GetAll_loop r i out = Some (take (nat i) out @ map (ring_slot r) [nat i..<nat (count r)])"
  using assms
proof (induction r i out rule: GetAll_loop.induct)
  case (1 r i out)
  show ?case
  proof (cases "i < count r")
    case False
    with 1 have "i = count r" by simp
    with 1 show ?thesis by (simp add: GetAll_loop.simps[of r i out])
  next
    case True
    from 1(2) True 1(3) have N: "0 < N" and sz: "size_rb r = N" and lb: "len (buf r) = N"
      and st: "0 \<le> start r" by (auto simp: ring_inv_def)
    let ?j = "(start r + i) mod N"
    have j: "go_rem (start r + i) (size_rb r) = Some ?j"
      using go_rem_nonneg[of "start r + i" N] st 1(3) N sz by simp
    have jr: "0 \<le> ?j" "?j < N" using N by simp_all
    have ix: "index_expr (buf r) ?j = Some (buf r ! nat ?j)"
      using jr lb by (simp add: index_expr_def)
    have so: "store_expr out i (buf r ! nat ?j) = Some (out[nat i := buf r ! nat ?j])"
      using True 1(3) 1(5) by (simp add: store_expr_def)
    have slot: "buf r ! nat ?j = ring_slot r (nat i)"
      using 1(3) sz by (simp add: ring_slot_def)
    have IH: "GetAll_loop r (i + 1) (out[nat i := buf r ! nat ?j]) =
        Some (take (nat (i + 1)) (out[nat i := buf r ! nat ?j]) @ map (ring_slot r) [nat (i + 1)..<nat (count r)])"
      using 1(1)[OF True j ix so 1(2)] True 1(3) 1(5) by simp
    have ni: "nat (i + 1) = Suc (nat i)" using 1(3) by simp
    have lt: "nat i < length out" using True 1(3) 1(5) by simp
    have lt2: "nat i < nat (count r)" using True 1(3) by simp
    have "take (Suc (nat i)) (out[nat i := ring_slot r (nat i)]) = take (nat i) out @ [ring_slot r (nat i)]"
      using lt by (simp add: take_Suc_conv_app_nth)
    moreover have "[nat i..<nat (count r)] = nat i # [Suc (nat i)..<nat (count r)]"
      using lt2 by (simp add: upt_conv_Cons)
    ultimately show ?thesis
      using True j ix so IH by (simp add: GetAll_loop.simps[of r i out] ni slot)
  qed
qed

lemma GetAll_contents:
  assumes "ring_inv r N"
  shows "GetAll r = Some (ring_contents r)"
proof -
  from assms have c: "0 \<le> count r" by (simp add: ring_inv_def)
  then have m: "make_frames (count r) = Some (replicate (nat (count r)) None)"
    by (simp add: make_frames_def)
  have "GetAll_loop r 0 (replicate (nat (count r)) None) =
      Some (take (nat 0) (replicate (nat (count r)) None) @ map (ring_slot r) [nat 0..<nat (count r)])"
    using c by (intro GetAll_loop_inv[OF assms]) simp_all
  then show ?thesis by (simp add: GetAll_def m ring_contents_def)
qed

lemma mod_shift_neq:
  assumes "0 < d" "d < N"
  shows "((a::int) + d) mod N \<noteq> a mod N"
proof
  assume "(a + d) mod N = a mod N"
  then have "N dvd (a + d) - a" by (simp only: mod_eq_dvd_iff)
  then have "N dvd d" by simp
  with assms show False by (simp add: zdvd_not_zless)
qed

lemma Push_not_full:
  assumes "ring_inv r N" "count r < N"
  shows "\<exists>r'. Push r x = Some r' \<and> ring_inv r' N \<and> ring_contents r' = ring_contents r @ [x]"
proof -
  from assms have N: "0 < N" and sz: "size_rb r = N" and lb: "len (buf r) = N"
    and st: "0 \<le> start r" "start r < N" and c: "0 \<le> count r" by (auto simp: ring_inv_def)
  let ?i = "(start r + count r) mod N"
  let ?r' = "r\<lparr>buf := (buf r)[nat ?i := x], count := count r + 1\<rparr>"
  have g: "go_rem (start r + count r) (size_rb r) = Some ?i"
    using go_rem_nonneg[of "start r + count r" N] st c N sz by simp
  have ir: "0 \<le> ?i" "?i < N" using N by simp_all
  have so: "store_expr (buf r) ?i x = Some ((buf r)[nat ?i := x])"
    using ir lb by (simp add: store_expr_def)
  have P: "Push r x = Some ?r'"
    using assms(2) sz g so by (simp add: Push_def)
  have I: "ring_inv ?r' N"
    using assms by (simp add: ring_inv_def)
  have old: "ring_slot ?r' k = ring_slot r k" if "k < nat (count r)" for k
  proof -
    have "0 < count r - int k" "count r - int k < N" using that assms(2) c by auto
    from mod_shift_neq[OF this, of "start r + int k"]
    have "?i \<noteq> (start r + int k) mod N" by (simp add: algebra_simps)
    moreover have "0 \<le> (start r + int k) mod N" using N by simp
    ultimately have "nat ?i \<noteq> nat ((start r + int k) mod N)" using ir(1)
      by (simp add: eq_nat_nat_iff)
    then show ?thesis by (simp add: ring_slot_def sz)
  qed
  have new: "ring_slot ?r' (nat (count r)) = x"
    using c ir lb by (simp add: ring_slot_def sz)
  have "ring_contents ?r' = map (ring_slot ?r') [0..<nat (count r)] @ [ring_slot ?r' (nat (count r))]"
    using c by (simp add: ring_contents_def nat_add_distrib)
  also have "map (ring_slot ?r') [0..<nat (count r)] = map (ring_slot r) [0..<nat (count r)]"
    using old by simp
  finally have "ring_contents ?r' = ring_contents r @ [x]"
    using new by (simp add: ring_contents_def)
  with P I show ?thesis by blast
qed

lemma Push_full:
  assumes "ring_inv r N" "count r = N"
  shows "\<exists>r'. Push r x = Some r' \<and> ring_inv r' N \<and> ring_contents r' = tl (ring_contents r) @ [x]"
proof -
  from assms have N: "0 < N" and sz: "size_rb r = N" and lb: "len (buf r) = N"
    and st: "0 \<le> start r" "start r < N" by (auto simp: ring_inv_def)
  let ?s = "(start r + 1) mod N"
  let ?r' = "r\<lparr>buf := (buf r)[nat (start r) := x], start := ?s\<rparr>"
  have g: "go_rem (start r + 1) (size_rb r) = Some ?s"
    using go_rem_nonneg[of "start r + 1" N] st N sz by simp
  have so: "store_expr (buf r) (start r) x = Some ((buf r)[nat (start r) := x])"
    using st lb by (simp add: store_expr_def)
  have P: "Push r x = Some ?r'"
    using assms(2) sz g so by (simp add: Push_def)
  have I: "ring_inv ?r' N"
    using assms N by (simp add: ring_inv_def)
  have shift: "(?s + int k) mod N = (start r + (1 + int k)) mod N" for k
    by (simp add: mod_simps algebra_simps)
  have old: "ring_slot ?r' k = ring_slot r (Suc k)" if "Suc k < nat N" for k
  proof -
    have "0 < 1 + int k" "1 + int k < N" using that by auto
    from mod_shift_neq[OF this, of "start r"]
    have "(start r + (1 + int k)) mod N \<noteq> start r" using st by simp
    moreover have "0 \<le> (start r + (1 + int k)) mod N" using N by simp
    ultimately have ne: "nat (start r) \<noteq> nat ((start r + (1 + int k)) mod N)" using st(1)
      by (simp add: eq_nat_nat_iff)
    have "ring_slot ?r' k = (buf r)[nat (start r) := x] ! nat ((?s + int k) mod N)"
      by (simp add: ring_slot_def sz)
    also have "\<dots> = (buf r)[nat (start r) := x] ! nat ((start r + (1 + int k)) mod N)"
      by (simp only: shift)
    also have "\<dots> = buf r ! nat ((start r + (1 + int k)) mod N)"
      using ne by (rule nth_list_update_neq)
    also have "\<dots> = ring_slot r (Suc k)"
      by (simp add: ring_slot_def sz add.commute)
    finally show ?thesis .
  qed
  have new: "ring_slot ?r' (nat N - 1) = x"
  proof -
    have e: "int (nat N - 1) = N - 1" using N by simp
    have "(?s + int (nat N - 1)) mod N = (start r + (1 + (N - 1))) mod N"
      unfolding e[symmetric] by (rule shift)
    also have "\<dots> = (start r + N) mod N" by simp
    also have "\<dots> = start r" using st by simp
    finally have "(?s + int (nat N - 1)) mod N = start r" .
    then show ?thesis using st lb by (simp add: ring_slot_def sz)
  qed
  have "ring_contents ?r' = tl (ring_contents r) @ [x]"
  proof (rule nth_equalityI)
    show "length (ring_contents ?r') = length (tl (ring_contents r) @ [x])"
      using N assms(2) by (simp add: ring_contents_def)
  next
    fix k assume "k < length (ring_contents ?r')"
    then have k: "k < nat N" using assms(2) by (simp add: ring_contents_def)
    show "ring_contents ?r' ! k = (tl (ring_contents r) @ [x]) ! k"
    proof (cases "Suc k < nat N")
      case True
      then have k1: "k < nat N - 1" by simp
      have lt: "length (tl (ring_contents r)) = nat N - 1"
        using assms(2) by (simp add: ring_contents_def)
      have "(tl (ring_contents r) @ [x]) ! k = tl (ring_contents r) ! k"
        using k1 lt by (simp add: nth_append)
      also have "\<dots> = ring_contents r ! Suc k"
        using k1 lt by (simp add: nth_tl)
      also have "\<dots> = ring_slot r (Suc k)"
        using True assms(2) by (simp add: ring_contents_def)
      finally have "(tl (ring_contents r) @ [x]) ! k = ring_slot r (Suc k)" .
      moreover have "ring_contents ?r' ! k = ring_slot ?r' k"
        using k assms(2) by (simp add: ring_contents_def)
      ultimately show ?thesis using old[OF True] by simp
    next
      case False
      with k have kk: "k = nat N - 1" by simp
      have lt: "length (tl (ring_contents r)) = nat N - 1"
        using assms(2) by (simp add: ring_contents_def)
      have "(tl (ring_contents r) @ [x]) ! k = x"
        using kk lt by (simp add: nth_append)
      moreover have "ring_contents ?r' ! k = ring_slot ?r' k"
        using k assms(2) by (simp add: ring_contents_def)
      ultimately show ?thesis using new kk by simp
    qed
  qed
  with P I show ?thesis by blast
qed

lemma ring_contents_length: "ring_inv r N \<Longrightarrow> length (ring_contents r) = nat (count r)"
  by (simp add: ring_contents_def)

lemma Push_step:
  assumes "ring_inv r N"
  shows "\<exists>r'. Push r x = Some r' \<and> ring_inv r' N \<and>
              ring_contents r' = lastn (nat N) (ring_contents r @ [x])"
proof (cases "count r < N")
  case True
  from Push_not_full[OF assms True, of x] obtain r' where
    r': "Push r x = Some r'" "ring_inv r' N" "ring_contents r' = ring_contents r @ [x]" by blast
  have "0 \<le> count r" using assms by (simp add: ring_inv_def)
  with True have "Suc (nat (count r)) \<le> nat N" by arith
  then have "length (ring_contents r @ [x]) \<le> nat N"
    by (simp add: ring_contents_length[OF assms])
  then have "lastn (nat N) (ring_contents r @ [x]) = ring_contents r @ [x]"
    by (simp add: lastn_def)
  with r' show ?thesis by auto
next
  case False
  with assms have c: "count r = N" by (simp add: ring_inv_def)
  from Push_full[OF assms c, of x] obtain r' where
    r': "Push r x = Some r'" "ring_inv r' N" "ring_contents r' = tl (ring_contents r) @ [x]" by blast
  have l: "length (ring_contents r) = nat N" using c by (simp add: ring_contents_length[OF assms])
  have N: "0 < nat N" using assms by (simp add: ring_inv_def)
  then have "ring_contents r \<noteq> []" using l by auto
  then have "lastn (nat N) (ring_contents r @ [x]) = tl (ring_contents r) @ [x]"
    using l N by (simp add: lastn_def drop_Suc)
  with r' show ?thesis by auto
qed

lemma lastn_lastn_append: "lastn n (lastn n ys @ fs) = lastn n (ys @ fs)"
proof (cases "length ys \<le> n")
  case True
  then show ?thesis by (simp add: lastn_def)
next
  case False
  define k where "k = length ys - n"
  have k: "length ys = k + n" using False by (simp add: k_def)
  have "lastn n (lastn n ys @ fs) = drop (length fs) (drop k ys @ fs)"
    by (simp add: lastn_def k)
  also have "\<dots> = drop (length fs) (drop k (ys @ fs))" by (simp add: k)
  also have "\<dots> = drop (length fs + k) (ys @ fs)" by (simp only: drop_drop)
  also have "\<dots> = lastn n (ys @ fs)" by (simp add: lastn_def k add.commute)
  finally show ?thesis .
qed

lemma Push_all_contents:
  assumes "ring_inv r N"
  shows "\<exists>r'. Push_all r fs = Some r' \<and> ring_inv r' N \<and>
              ring_contents r' = lastn (nat N) (ring_contents r @ fs)"
  using assms
proof (induction fs arbitrary: r)
  case Nil
  have "count r \<le> N" using Nil by (simp add: ring_inv_def)
  then have "nat (count r) \<le> nat N" by (rule nat_mono)
  then have "length (ring_contents r) \<le> nat N"
    by (simp add: ring_contents_def)
  then show ?case using Nil by (simp add: lastn_def)
next
  case (Cons x fs)
  from Push_step[OF Cons.prems, of x] obtain r1 where
    r1: "Push r x = Some r1" "ring_inv r1 N"
        "ring_contents r1 = lastn (nat N) (ring_contents r @ [x])" by blast
  from Cons.IH[OF r1(2)] obtain r' where
    r': "Push_all r1 fs = Some r'" "ring_inv r' N"
        "ring_contents r' = lastn (nat N) (ring_contents r1 @ fs)" by blast
  have "ring_contents r' = lastn (nat N) ((ring_contents r @ [x]) @ fs)"
    unfolding r'(3) r1(3) by (rule lastn_lastn_append)
  with r1(1) r'(1) r'(2) show ?case by simp
qed

lemma NewRingBuffer_inv:
  assumes "1 \<le> N"
  shows "\<exists>r. NewRingBuffer N = Some r \<and> ring_inv r N \<and> ring_contents r = []"
  using assms by (simp add: NewRingBuffer_def make_frames_def ring_inv_def ring_contents_def)

text \<open>
  C3. For every capacity \<open>N \<ge> 1\<close> and every sequence \<open>fs\<close> of \<open>k\<close> pushed frames, the
  ring buffer is created and every \<open>Push\<close> returns without a panic, and \<open>GetAll\<close> then
  returns a list (built in a slice that \<open>GetAll\<close> allocates itself) of length
  \<open>min(k, N)\<close>: the last \<open>min(k, N)\<close> pushed frames in insertion order, oldest first.
\<close>

theorem ring_snapshot_last_pushes:
  assumes "1 \<le> N"
  shows "\<exists>r0 r out. NewRingBuffer N = Some r0 \<and> Push_all r0 fs = Some r \<and>
           GetAll r = Some out \<and> out = lastn (nat N) fs \<and>
           length out = min (length fs) (nat N)"
proof -
  from NewRingBuffer_inv[OF assms] obtain r0 where
    r0: "NewRingBuffer N = Some r0" "ring_inv r0 N" "ring_contents r0 = []" by blast
  from Push_all_contents[OF r0(2), of fs] obtain r where
    r: "Push_all r0 fs = Some r" "ring_inv r N" "ring_contents r = lastn (nat N) fs"
    using r0(3) by auto
  have "GetAll r = Some (lastn (nat N) fs)"
    using GetAll_contents[OF r(2)] r(3) by simp
  moreover have "length (lastn (nat N) fs) = min (length fs) (nat N)"
    by (simp add: lastn_def)
  ultimately show ?thesis using r0(1) r(1) by simp
qed

theorem ring_snapshot_last_pushes_witness:
  "\<exists>r0 r out. NewRingBuffer 2 = Some r0 \<and>
     Push_all r0 [Some [1], Some [2], Some [3]] = Some r \<and>
     GetAll r = Some out \<and> out = [Some [2], Some [3]] \<and> length out = 2"
  using ring_snapshot_last_pushes [of 2 "[Some [1], Some [2], Some [3]]"]
  by (simp add: lastn_def)

section \<open>Proofs: broadcast to a saturated client\<close>

lemma broadcast_drop_full:
  assumes "ch client = Some r" "\<not> closed (chans m r)" "length (items (chans m r)) = cap (chans m r)"
    "0 < cap (chans m r)"
  shows "broadcast_drop h m client =
     Some (h\<lparr>DropCount := DropCount h + 1\<rparr>,
           if (DropCount h + 1) mod 100 = 0
           then m\<lparr>chans := (chans m)(r := (chans m r)\<lparr>items := tl (items (chans m r)) @
                     (case LastFrame h of None \<Rightarrow> [] | Some f \<Rightarrow> [LastFrame h])\<rparr>)\<rparr>
           else m)"
proof (cases "(DropCount h + 1) mod 100 = 0")
  case False
  then show ?thesis by (simp add: broadcast_drop_def Let_def)
next
  case True
  have room: "length (tl (items (chans m r))) < cap (chans m r)"
    using assms(3,4) by simp
  show ?thesis
  proof (cases "LastFrame h")
    case None
    then show ?thesis using True assms(1)
      by (simp add: broadcast_drop_def Let_def broadcast_resync_def try_recv_def)
  next
    case (Some f)
    then show ?thesis using True assms(1,2) room
      by (simp add: broadcast_drop_def Let_def broadcast_resync_def try_recv_def try_send_def)
  qed
qed

lemma broadcast_send_full:
  assumes "ch client = Some r" "\<not> closed (chans m r)"
    and "length (items (chans m r)) = cap (chans m r)" "0 < cap (chans m r)"
  shows "broadcast_send data h m client =
     Some (h\<lparr>DropCount := DropCount h + 1\<rparr>,
           if (DropCount h + 1) mod 100 = 0
           then m\<lparr>chans := (chans m)(r := (chans m r)\<lparr>items := tl (items (chans m r)) @
                     (case LastFrame h of None \<Rightarrow> [] | Some f \<Rightarrow> [LastFrame h])\<rparr>)\<rparr>
           else m)"
proof -
  have "broadcast_send data h m client = broadcast_drop h m client"
    using assms by (simp add: broadcast_send_def try_send_def)
  then show ?thesis using broadcast_drop_full[OF assms] by simp
qed

text \<open>
  C2, as amended. When a frame is broadcast to a client whose queue is open and holds
  4096 pending frames, its capacity, the step returns without a panic (the send is a
  \<open>select\<close> with a default branch, so the producer is never blocked), \<open>DropCount\<close> is
  incremented by exactly 1 (modulo \<open>2^64\<close>), and the queue is left unchanged unless the
  new \<open>DropCount\<close> is a multiple of 100: then the oldest pending frame is removed and
  \<open>LastFrame\<close>, when it is not nil, is appended. Nothing else changes.
\<close>

theorem broadcast_send_full_queue:
  assumes "ch client = Some r" "\<not> closed (chans m r)"
    and "cap (chans m r) = 4096" "length (items (chans m r)) = 4096"
  shows "broadcast_send data h m client =
     Some (h\<lparr>DropCount := DropCount h + 1\<rparr>,
           if (DropCount h + 1) mod 100 = 0
           then m\<lparr>chans := (chans m)(r := (chans m r)\<lparr>items := tl (items (chans m r)) @
                     (case LastFrame h of None \<Rightarrow> [] | Some f \<Rightarrow> [LastFrame h])\<rparr>)\<rparr>
           else m)"
  using assms by (intro broadcast_send_full) simp_all

theorem broadcast_send_full_queue_witness:
  "broadcast_send (Some [1]) (ex_hub\<lparr>DropCount := 7\<rparr>) ex_mem ex_client =
     Some (ex_hub\<lparr>DropCount := 8\<rparr>, ex_mem)"
  using broadcast_send_full_queue [of ex_client 0 ex_mem "Some [1]" "ex_hub\<lparr>DropCount := 7\<rparr>"]
  by (simp add: ex_client_def ex_mem_def ex_full_chan_def ex_hub_def)

text \<open>
  C2 as stated fails on every hundredth drop. The hub has one client, whose queue holds
  4096 frames, and \<open>DropCount = 99\<close>; after \<open>broadcast\<close> of a new frame the queue has lost
  its oldest frame and ends with the new frame, which \<open>broadcast\<close> has just stored in
  \<open>LastFrame\<close>.
\<close>

theorem broadcast_full_queue_counterexample:
  "queue_after (broadcast (ex_hub\<lparr>DropCount := 99\<rparr>) ex_mem (Some [1])) 0
      = Some (replicate 4095 (Some [0x47]) @ [Some [1]]) \<and>
   items (chans ex_mem 0) = replicate 4096 (Some [0x47]) \<and>
   replicate 4095 (Some [0x47 :: byte]) @ [Some [1]] \<noteq> replicate 4096 (Some [0x47])"
proof (intro conjI)
  have p: "Push ex_ring (Some [1]) =
      Some (ex_ring\<lparr>buf := (buf ex_ring)[0 := Some [1]], count := 1\<rparr>)"
    by (simp add: Push_def ex_ring_def go_rem_def store_expr_def)
  define h1 where "h1 = ex_hub\<lparr>DropCount := 99, PacketCount := 1, LastFrame := Some [1],
                CacheBuffer := Some (ex_ring\<lparr>buf := (buf ex_ring)[0 := Some [1]], count := 1\<rparr>)\<rparr>"
  have d: "DropCount h1 = 99" and l: "LastFrame h1 = Some [1]"
    by (simp_all add: h1_def)
  have q: "chans ex_mem 0 = ex_full_chan" by (simp add: ex_mem_def)
  have s: "broadcast_send (Some [1]) h1 ex_mem ex_client =
     Some (h1\<lparr>DropCount := DropCount h1 + 1\<rparr>,
           if (DropCount h1 + 1) mod 100 = 0
           then ex_mem\<lparr>chans := (chans ex_mem)(0 := (chans ex_mem 0)\<lparr>items := tl (items (chans ex_mem 0)) @
                     (case LastFrame h1 of None \<Rightarrow> [] | Some f \<Rightarrow> [LastFrame h1])\<rparr>)\<rparr>
           else ex_mem)"
    by (rule broadcast_send_full)
       (simp_all add: ex_client_def q ex_full_chan_def)
  have b: "broadcast (ex_hub\<lparr>DropCount := 99\<rparr>) ex_mem (Some [1]) =
      broadcast_clients (Some [1]) h1 ex_mem [(''c1'', ex_client)]"
    by (simp add: broadcast_def ex_hub_def p h1_def)
  have c: "broadcast_clients (Some [1]) h1 ex_mem [(''c1'', ex_client)] =
      Some (h1\<lparr>DropCount := 100\<rparr>,
            ex_mem\<lparr>chans := (chans ex_mem)(0 := ex_full_chan\<lparr>items :=
               tl (items ex_full_chan) @ [Some [1]]\<rparr>)\<rparr>)"
    unfolding broadcast_clients.simps s d l q by simp
  have t: "tl (replicate 4096 (Some [0x47 :: byte])) = replicate 4095 (Some [0x47])"
    by (simp only: tl_replicate) simp
  show "queue_after (broadcast (ex_hub\<lparr>DropCount := 99\<rparr>) ex_mem (Some [1])) 0
      = Some (replicate 4095 (Some [0x47]) @ [Some [1]])"
    unfolding b c by (simp add: queue_after_def ex_full_chan_def t)
  show "items (chans ex_mem 0) = replicate 4096 (Some [0x47])"
    by (simp add: ex_mem_def ex_full_chan_def)
  have "last (replicate 4095 (Some [0x47 :: byte]) @ [Some [1]]) \<noteq> last (replicate 4096 (Some [0x47]))"
    by simp
  then show "replicate 4095 (Some [0x47 :: byte]) @ [Some [1]] \<noteq> replicate 4096 (Some [0x47])"
    by metis
qed

section \<open>Proofs: non-multicast addresses\<close>









section \<open>Proofs: Close and the detach of an unknown client\<close>

lemma fold_close_conn_chans [simp]: "chans (fold close_conn cs m) = chans m"
  by (induction cs arbitrary: m) (simp_all add: close_conn_def split: option.splits)

lemma fold_close_conn_nconns [simp]: "nconns (fold close_conn cs m) = nconns m"
  by (induction cs arbitrary: m) (simp_all add: close_conn_def split: option.splits)

lemma fold_close_conn_is_open:
  "is_open (conns (fold close_conn cs m) r) = (Some r \<notin> set cs \<and> is_open (conns m r))"
  by (induction cs arbitrary: m) (auto simp: close_conn_def split: option.splits)

lemma fold_close_conn_other:
  "Some r \<notin> set cs \<Longrightarrow> conns (fold close_conn cs m) r = conns m r"
  by (induction cs arbitrary: m) (auto simp: close_conn_def split: option.splits)

lemma closed_once_Nil [simp]: "closed_once [] m = m"
  by (simp add: closed_once_def)

lemma closed_once_Cons:
  assumes "r \<notin> set rs"
  shows "closed_once rs (m\<lparr>chans := (chans m)(r := (chans m r)\<lparr>closed := True, nclose := nclose (chans m r) + 1\<rparr>)\<rparr>)
       = closed_once (r # rs) m"
  using assms by (auto simp: closed_once_def fun_eq_iff)

lemma Close_clients_closed_once:
  assumes "distinct (client_chans cs)" "\<forall>r\<in>set (client_chans cs). \<not> closed (chans m r)"
  shows "Close_clients m cs = Some (closed_once (client_chans cs) m)"
  using assms
proof (induction cs arbitrary: m)
  case Nil
  then show ?case by simp
next
  case (Cons kc cs)
  obtain k c where kc: "kc = (k, c)" by (cases kc)
  show ?case
  proof (cases "ch c")
    case None
    then show ?thesis using Cons kc by simp
  next
    case (Some r)
    let ?m = "m\<lparr>chans := (chans m)(r := (chans m r)\<lparr>closed := True, nclose := nclose (chans m r) + 1\<rparr>)\<rparr>"
    from Cons.prems Some kc have r: "r \<notin> set (client_chans cs)" "\<not> closed (chans m r)"
      and d: "distinct (client_chans cs)" by auto
    have o: "\<forall>q\<in>set (client_chans cs). \<not> closed (chans ?m q)"
      using Cons.prems(2) r(1) Some kc by auto
    have c1: "close_ch m (Some r) = Some ?m"
      using r(2) by (simp add: close_ch_def close_chan_def)
    have "Close_clients m (kc # cs) = Close_clients ?m cs"
      using Some kc c1 by simp
    also have "\<dots> = Some (closed_once (client_chans cs) ?m)"
      by (rule Cons.IH[OF d o])
    also have "closed_once (client_chans cs) ?m = closed_once (r # client_chans cs) m"
      by (rule closed_once_Cons[OF r(1)])
    finally show ?thesis using Some kc by simp
  qed
qed


lemma Close_open:
  assumes "Closed h = Some False" "AddrList h \<noteq> []"
    and "distinct (client_chans (range_Clients h))"
    and "\<forall>r\<in>set (client_chans (range_Clients h)). \<not> closed (chans m r)"
  shows "Close h m =
     Some (h\<lparr>Closed := Some True, UdpConns := [], Clients := None, CacheBuffer := None,
             LastFrame := None, state := StateStopped\<rparr>,
           closed_once (client_chans (range_Clients h)) (fold close_conn (UdpConns h) m))"
proof -
  have "Close_clients (fold close_conn (UdpConns h) m) (range_Clients h)
      = Some (closed_once (client_chans (range_Clients h)) (fold close_conn (UdpConns h) m))"
    using assms(3,4) by (intro Close_clients_closed_once) simp_all
  moreover have "index_expr (AddrList h) 0 = Some (AddrList h ! 0)"
    using assms(2) by (simp add: index_expr_def)
  ultimately show ?thesis using assms(1) by (simp add: Close_def)
qed

lemma Close_idem: "Close h m = Some (h', m') \<Longrightarrow> Close h' m' = Some (h', m')"
  by (auto simp: Close_def split: option.splits bool.splits)

text \<open>
  C4. A call of \<open>Close\<close> that returns leaves a state on which a further \<open>Close\<close> changes
  nothing. On an open hub whose clients hold distinct, open channels, \<open>Close\<close> returns;
  after it every client channel is closed, \<open>close\<close> has been called on it exactly once
  (and the pending frames are kept), no other channel is touched, the clients table, the
  ring and \<open>LastFrame\<close> are nil, the socket list is empty and every socket of the old
  list is closed, the state is Stopped and \<open>IsClosed\<close> holds; neither a second \<open>Close\<close>
  nor the \<open>Closed\<close> case of the control loop closes a channel again.
\<close>

theorem Close_idempotent:
  "(Close h m = Some (h1, m1) \<longrightarrow> Close h1 m1 = Some (h1, m1)) \<and>
   (Closed h = Some False \<and> AddrList h \<noteq> [] \<and>
    distinct (client_chans (range_Clients h)) \<and>
    (\<forall>r\<in>set (client_chans (range_Clients h)). \<not> closed (chans m r)) \<longrightarrow>
      (\<exists>h' m'. Close h m = Some (h', m') \<and> Close h' m' = Some (h', m') \<and>
         run_Closed h' m' = Some (h', m') \<and>
         (\<forall>r\<in>set (client_chans (range_Clients h)).
             closed (chans m' r) \<and> nclose (chans m' r) = nclose (chans m r) + 1 \<and>
             items (chans m' r) = items (chans m r)) \<and>
         (\<forall>r. r \<notin> set (client_chans (range_Clients h)) \<longrightarrow> chans m' r = chans m r) \<and>
         Clients h' = None \<and> len_Clients h' = 0 \<and> CacheBuffer h' = None \<and> LastFrame h' = None \<and>
         UdpConns h' = [] \<and> (\<forall>r. Some r \<in> set (UdpConns h) \<longrightarrow> \<not> is_open (conns m' r)) \<and>
         state h' = StateStopped \<and> IsClosed h'))"
proof (intro conjI impI)
  assume "Close h m = Some (h1, m1)"
  then show "Close h1 m1 = Some (h1, m1)" by (rule Close_idem)
next
  assume a: "Closed h = Some False \<and> AddrList h \<noteq> [] \<and>
    distinct (client_chans (range_Clients h)) \<and>
    (\<forall>r\<in>set (client_chans (range_Clients h)). \<not> closed (chans m r))"
  let ?h' = "h\<lparr>Closed := Some True, UdpConns := [], Clients := None, CacheBuffer := None,
             LastFrame := None, state := StateStopped\<rparr>"
  let ?m' = "closed_once (client_chans (range_Clients h)) (fold close_conn (UdpConns h) m)"
  have c: "Close h m = Some (?h', ?m')" using a by (intro Close_open) simp_all
  have c2: "Close ?h' ?m' = Some (?h', ?m')" by (simp add: Close_def)
  have rc: "run_Closed ?h' ?m' = Some (?h', ?m')"
    by (simp add: run_Closed_def range_Clients_def)
  have ch: "\<forall>r\<in>set (client_chans (range_Clients h)).
             closed (chans ?m' r) \<and> nclose (chans ?m' r) = nclose (chans m r) + 1 \<and>
             items (chans ?m' r) = items (chans m r)"
    by (simp add: closed_once_def)
  have oth: "\<forall>r. r \<notin> set (client_chans (range_Clients h)) \<longrightarrow> chans ?m' r = chans m r"
    by (simp add: closed_once_def)
  have so: "\<forall>r. Some r \<in> set (UdpConns h) \<longrightarrow> \<not> is_open (conns ?m' r)"
    by (simp add: closed_once_def fold_close_conn_is_open)
  have rest: "Clients ?h' = None \<and> len_Clients ?h' = 0 \<and> CacheBuffer ?h' = None \<and> LastFrame ?h' = None \<and>
         UdpConns ?h' = [] \<and> state ?h' = StateStopped \<and> IsClosed ?h'"
    by (simp add: len_Clients_def IsClosed_def)
  show "\<exists>h' m'. Close h m = Some (h', m') \<and> Close h' m' = Some (h', m') \<and>
         run_Closed h' m' = Some (h', m') \<and>
         (\<forall>r\<in>set (client_chans (range_Clients h)).
             closed (chans m' r) \<and> nclose (chans m' r) = nclose (chans m r) + 1 \<and>
             items (chans m' r) = items (chans m r)) \<and>
         (\<forall>r. r \<notin> set (client_chans (range_Clients h)) \<longrightarrow> chans m' r = chans m r) \<and>
         Clients h' = None \<and> len_Clients h' = 0 \<and> CacheBuffer h' = None \<and> LastFrame h' = None \<and>
         UdpConns h' = [] \<and> (\<forall>r. Some r \<in> set (UdpConns h) \<longrightarrow> \<not> is_open (conns m' r)) \<and>
         state h' = StateStopped \<and> IsClosed h'"
    apply (rule exI[of _ ?h'])
    apply (rule exI[of _ ?m'])
    using c c2 rc ch oth so rest by blast
qed


theorem Close_idempotent_witness:
  "\<exists>h' m'. Close ex_hub ex_mem = Some (h', m') \<and> Close h' m' = Some (h', m') \<and>
      run_Closed h' m' = Some (h', m') \<and>
      closed (chans m' 0) \<and> nclose (chans m' 0) = 1 \<and> chans m' 1 = chans ex_mem 1 \<and>
      Clients h' = None \<and> CacheBuffer h' = None \<and> LastFrame h' = None \<and> UdpConns h' = [] \<and>
      \<not> is_open (conns m' 0) \<and> state h' = StateStopped \<and> IsClosed h'"
proof -
  have cc: "client_chans (range_Clients ex_hub) = [0]"
    by (simp add: range_Clients_def ex_hub_def ex_client_def)
  have "Closed ex_hub = Some False \<and> AddrList ex_hub \<noteq> [] \<and>
    distinct (client_chans (range_Clients ex_hub)) \<and>
    (\<forall>r\<in>set (client_chans (range_Clients ex_hub)). \<not> closed (chans ex_mem r))"
    unfolding cc by (simp add: ex_hub_def ex_mem_def ex_full_chan_def)
  with Close_idempotent [of ex_hub ex_mem ex_hub ex_mem]
  obtain h' m' where r: "Close ex_hub ex_mem = Some (h', m')" "Close h' m' = Some (h', m')"
      "run_Closed h' m' = Some (h', m')"
      "\<forall>r\<in>set (client_chans (range_Clients ex_hub)).
             closed (chans m' r) \<and> nclose (chans m' r) = nclose (chans ex_mem r) + 1 \<and>
             items (chans m' r) = items (chans ex_mem r)"
      "\<forall>r. r \<notin> set (client_chans (range_Clients ex_hub)) \<longrightarrow> chans m' r = chans ex_mem r"
      "Clients h' = None" "CacheBuffer h' = None" "LastFrame h' = None"
      "UdpConns h' = []" "\<forall>r. Some r \<in> set (UdpConns ex_hub) \<longrightarrow> \<not> is_open (conns m' r)"
      "state h' = StateStopped" "IsClosed h'"
    by blast
  from r(4) have a: "closed (chans m' 0) \<and> nclose (chans m' 0) = 1"
    unfolding cc by (simp add: ex_mem_def ex_full_chan_def)
  from r(5) have b: "chans m' 1 = chans ex_mem 1" unfolding cc by simp
  from r(10) have c: "\<not> is_open (conns m' 0)" by (simp add: ex_hub_def)
  show ?thesis using r(1,2,3,6,7,8,9,11,12) a b c by blast
qed

lemma world_same [simp]: "w\<lparr>mem := mem w, hubs := (hubs w)(p := hubs w p)\<rparr> = w"
  by simp

lemma run_RemoveCh_delete_absent:
  "map_of (range_Clients h) cid = None \<Longrightarrow> run_RemoveCh_delete h m cid = Some (h, m)"
  by (cases "Clients h") (simp_all add: run_RemoveCh_delete_def range_Clients_def)

lemma Close_no_clients:
  assumes "len_Clients h = 0" "Closed h = Some False" "AddrList h \<noteq> []"
  shows "Close h m =
     Some (h\<lparr>Closed := Some True, UdpConns := [], Clients := None, CacheBuffer := None,
             LastFrame := None, state := StateStopped\<rparr>,
           fold close_conn (UdpConns h) m)"
proof -
  have "range_Clients h = []"
    using assms(1) by (simp add: len_Clients_def range_Clients_def split: option.splits)
  then show ?thesis using assms(2,3) by (simp add: Close_def index_expr_def)
qed

text \<open>
  C10. The control loop receives a detach request whose \<open>connID\<close> is not in the clients
  table. The first statement of the case changes neither the hub nor any channel. If the
  table is not empty the loop goes on with the state unchanged. If the table is empty
  (and the hub is open), \<open>Close\<close> runs and returns, the hub is closed, no channel is
  touched, the callback \<open>OnEmpty\<close> is invoked on the closed hub, and the loop returns.
\<close>

theorem spurious_detach_shuts_down_empty_hub:
  assumes "map_of (range_Clients (hubs w p)) cid = None"
  shows "run_RemoveCh_delete (hubs w p) (mem w) cid = Some (hubs w p, mem w) \<and>
    (len_Clients (hubs w p) \<noteq> 0 \<longrightarrow> run_RemoveCh env w p cid = Some (w, Running)) \<and>
    (len_Clients (hubs w p) = 0 \<and> Closed (hubs w p) = Some False \<and> AddrList (hubs w p) \<noteq> [] \<longrightarrow>
       (\<exists>w2. Close_hub w p = Some w2 \<and> IsClosed (hubs w2 p) \<and>
             chans (mem w2) = chans (mem w) \<and>
             run_RemoveCh env w p cid =
               (case call_OnEmpty env w2 p of None \<Rightarrow> None | Some w3 \<Rightarrow> Some (w3, Returned))))"
proof (intro conjI impI)
  show d: "run_RemoveCh_delete (hubs w p) (mem w) cid = Some (hubs w p, mem w)"
    using assms by (rule run_RemoveCh_delete_absent)
  {
    assume "len_Clients (hubs w p) \<noteq> 0"
    then show "run_RemoveCh env w p cid = Some (w, Running)"
      by (simp add: run_RemoveCh_def d)
  }
  assume a: "len_Clients (hubs w p) = 0 \<and> Closed (hubs w p) = Some False \<and> AddrList (hubs w p) \<noteq> []"
  let ?h = "(hubs w p)\<lparr>Closed := Some True, UdpConns := [], Clients := None, CacheBuffer := None,
             LastFrame := None, state := StateStopped\<rparr>"
  let ?w2 = "w\<lparr>mem := fold close_conn (UdpConns (hubs w p)) (mem w), hubs := (hubs w)(p := ?h)\<rparr>"
  have c: "Close (hubs w p) (mem w) = Some (?h, fold close_conn (UdpConns (hubs w p)) (mem w))"
    using a by (intro Close_no_clients) simp_all
  have ch: "Close_hub w p = Some ?w2" by (simp add: Close_hub_def c)
  have r: "run_RemoveCh env w p cid =
               (case call_OnEmpty env ?w2 p of None \<Rightarrow> None | Some w3 \<Rightarrow> Some (w3, Returned))"
    using a by (simp add: run_RemoveCh_def d ch)
  have "IsClosed (hubs ?w2 p) \<and> chans (mem ?w2) = chans (mem w)"
    by (simp add: IsClosed_def)
  with ch r show "\<exists>w2. Close_hub w p = Some w2 \<and> IsClosed (hubs w2 p) \<and>
             chans (mem w2) = chans (mem w) \<and>
             run_RemoveCh env w p cid =
               (case call_OnEmpty env w2 p of None \<Rightarrow> None | Some w3 \<Rightarrow> Some (w3, Returned))"
    by blast
qed


lemma ex_world_Close_hub:
  "Close_hub ex_world 0 = Some w2 \<Longrightarrow>
     call_OnEmpty ex_env w2 0 = Some (w2\<lparr>Hubs := []\<rparr>) \<and> nhubs w2 = 1"
  by (auto simp: Close_hub_def Close_def ex_world_def ex_idle_hub_def ex_hub_def range_Clients_def
        index_expr_def call_OnEmpty_def RemoveHubEx_def HubKey_def ex_env_def
      split: option.splits)

theorem spurious_detach_shuts_down_empty_hub_witness:
  "run_RemoveCh_delete (hubs ex_world 0) (mem ex_world) ''ghost'' =
     Some (hubs ex_world 0, mem ex_world) \<and>
   (\<exists>w3. run_RemoveCh ex_env ex_world 0 ''ghost'' = Some (w3, Returned) \<and>
      IsClosed (hubs w3 0) \<and> Hubs w3 = [] \<and> chans (mem w3) = chans (mem ex_world))"
proof -
  have a: "map_of (range_Clients (hubs ex_world 0)) ''ghost'' = None"
    by (simp add: ex_world_def ex_idle_hub_def range_Clients_def)
  have b: "len_Clients (hubs ex_world 0) = 0 \<and> Closed (hubs ex_world 0) = Some False \<and>
           AddrList (hubs ex_world 0) \<noteq> []"
    by (simp add: ex_world_def ex_idle_hub_def ex_hub_def len_Clients_def)
  from spurious_detach_shuts_down_empty_hub [OF a, of ex_env] b
  obtain w2 where d: "run_RemoveCh_delete (hubs ex_world 0) (mem ex_world) ''ghost'' =
        Some (hubs ex_world 0, mem ex_world)"
    and c: "Close_hub ex_world 0 = Some w2" and i: "IsClosed (hubs w2 0)"
    and m: "chans (mem w2) = chans (mem ex_world)"
    and r: "run_RemoveCh ex_env ex_world 0 ''ghost'' =
             (case call_OnEmpty ex_env w2 0 of None \<Rightarrow> None | Some w3 \<Rightarrow> Some (w3, Returned))"
    by blast
  from ex_world_Close_hub [OF c] r
  have "run_RemoveCh ex_env ex_world 0 ''ghost'' = Some (w2\<lparr>Hubs := []\<rparr>, Returned)" by simp
  moreover have "IsClosed (hubs (w2\<lparr>Hubs := []\<rparr>) 0) \<and> Hubs (w2\<lparr>Hubs := []\<rparr>) = [] \<and>
      chans (mem (w2\<lparr>Hubs := []\<rparr>)) = chans (mem ex_world)"
    using i m by simp
  ultimately show ?thesis using d by blast
qed

section \<open>Proofs: UpdateInterfaces\<close>

lemma ListenMulticastUDP_step:
  "ListenMulticastUDP env m ifi a = (m, None) \<or>
   (\<exists>c. is_open c \<and> ListenMulticastUDP env m ifi a = (fst (new_conn m c), Some (nconns m)))"
proof (cases "multicast_ok env m ifi a")
  case True
  have "is_open \<lparr>laddr = a, via = ifi, multicast = True, is_open = True\<rparr>" by simp
  moreover have "ListenMulticastUDP env m ifi a =
      (fst (new_conn m \<lparr>laddr = a, via = ifi, multicast = True, is_open = True\<rparr>), Some (nconns m))"
    using True by (simp add: ListenMulticastUDP_def new_conn_def)
  ultimately show ?thesis by blast
next
  case False
  then show ?thesis by (simp add: ListenMulticastUDP_def)
qed

lemma ListenUDP_step:
  "ListenUDP env m a = (m, None) \<or>
   (\<exists>c. is_open c \<and> ListenUDP env m a = (fst (new_conn m c), Some (nconns m)))"
proof (cases "unicast_ok env m a")
  case True
  have "is_open \<lparr>laddr = a, via = None, multicast = False, is_open = True\<rparr>" by simp
  moreover have "ListenUDP env m a =
      (fst (new_conn m \<lparr>laddr = a, via = None, multicast = False, is_open = True\<rparr>), Some (nconns m))"
    using True by (simp add: ListenUDP_def new_conn_def)
  ultimately show ?thesis by blast
next
  case False
  then show ?thesis by (simp add: ListenUDP_def)
qed

lemma listenMulticast_ifaces_step:
  "listenMulticast_ifaces env m a ifaces = (m, None) \<or>
   (\<exists>c. is_open c \<and> listenMulticast_ifaces env m a ifaces = (fst (new_conn m c), Some (nconns m)))"
proof (induction env m a ifaces rule: listenMulticast_ifaces.induct)
  case (1 env m a)
  then show ?case by simp
next
  case (2 env m a rest)
  then show ?case by simp
next
  case (3 env m a iface rest)
  from ListenMulticastUDP_step [of env m "Some iface" a] show ?case
  proof
    assume f: "ListenMulticastUDP env m (Some iface) a = (m, None)"
    with 3 show ?thesis by simp
  next
    assume "\<exists>c. is_open c \<and>
      ListenMulticastUDP env m (Some iface) a = (fst (new_conn m c), Some (nconns m))"
    then show ?thesis by auto
  qed
qed

lemma listenMulticast_step:
  "(\<exists>e. listenMulticast env m addr ifaces = (m, Inl e)) \<or>
   (\<exists>c. is_open c \<and> listenMulticast env m addr ifaces = (fst (new_conn m c), Inr (nconns m)))"
proof (cases addr)
  case None
  then show ?thesis by (simp add: listenMulticast_def)
next
  case (Some a)
  show ?thesis
  proof (cases "IP a = None \<or> \<not> isMulticast (IP a)")
    case True
    then show ?thesis using Some by (auto simp: listenMulticast_def)
  next
    case False
    show ?thesis
    proof (cases "ifaces = []")
      case True
      from ListenMulticastUDP_step [of env m None a] ListenUDP_step [of env m a]
      show ?thesis using Some False True by (auto simp: listenMulticast_def)
    next
      case ne: False
      from listenMulticast_ifaces_step [of env m a ifaces] ListenUDP_step [of env m a]
      show ?thesis using Some False ne by (auto simp: listenMulticast_def)
    qed
  qed
qed

lemma listen_on_names_step:
  "listen_on_names env m a names = (m, None) \<or>
   (\<exists>c. is_open c \<and> listen_on_names env m a names = (fst (new_conn m c), Some (nconns m)))"
proof (induction names)
  case Nil
  then show ?case by simp
next
  case (Cons name rest)
  show ?case
  proof (cases "InterfaceByName env name")
    case None
    then show ?thesis using Cons by simp
  next
    case (Some iface)
    from listenMulticast_step [of env m "Some a" "[Some iface]"] show ?thesis
    proof
      assume "\<exists>e. listenMulticast env m (Some a) [Some iface] = (m, Inl e)"
      then show ?thesis using Some Cons by auto
    next
      assume "\<exists>c. is_open c \<and>
        listenMulticast env m (Some a) [Some iface] = (fst (new_conn m c), Inr (nconns m))"
      then show ?thesis using Some by auto
    qed
  qed
qed

lemma UpdateInterfaces_addrs_step:
  "UpdateInterfaces_addrs env m ifaces (addr # rest) acc = UpdateInterfaces_addrs env m ifaces rest acc \<or>
   (\<exists>c. is_open c \<and> UpdateInterfaces_addrs env m ifaces (addr # rest) acc =
          UpdateInterfaces_addrs env (fst (new_conn m c)) ifaces rest (acc @ [Some (nconns m)]))"
proof (cases "ResolveUDPAddr env addr")
  case None
  then show ?thesis by simp
next
  case (Some a)
  from listen_on_names_step [of env m a ifaces] show ?thesis
  proof
    assume f: "listen_on_names env m a ifaces = (m, None)"
    from listenMulticast_step [of env m "Some a" "[]"] show ?thesis
      using Some f by auto
  next
    assume "\<exists>c. is_open c \<and> listen_on_names env m a ifaces = (fst (new_conn m c), Some (nconns m))"
    then show ?thesis using Some by auto
  qed
qed

lemma UpdateInterfaces_addrs_inv:
  "\<exists>k. UpdateInterfaces_addrs env m ifaces addrs acc =
          (m', acc') \<longrightarrow>
       acc' = acc @ map Some [nconns m ..< nconns m + k] \<and> nconns m' = nconns m + k \<and>
       chans m' = chans m \<and> (\<forall>r<nconns m. conns m' r = conns m r) \<and>
       (\<forall>r. nconns m \<le> r \<and> r < nconns m' \<longrightarrow> is_open (conns m' r)) \<and>
       (k = 0 \<longrightarrow> m' = m)"
proof (induction addrs arbitrary: m acc)
  case Nil
  show ?case by (rule exI[of _ 0]) auto
next
  case (Cons addr rest)
  from UpdateInterfaces_addrs_step [of env m ifaces addr rest acc] show ?case
  proof
    assume "UpdateInterfaces_addrs env m ifaces (addr # rest) acc =
            UpdateInterfaces_addrs env m ifaces rest acc"
    then show ?thesis using Cons [of m acc] by simp
  next
    assume "\<exists>c. is_open c \<and> UpdateInterfaces_addrs env m ifaces (addr # rest) acc =
          UpdateInterfaces_addrs env (fst (new_conn m c)) ifaces rest (acc @ [Some (nconns m)])"
    then obtain c where o: "is_open c"
      and e: "UpdateInterfaces_addrs env m ifaces (addr # rest) acc =
          UpdateInterfaces_addrs env (fst (new_conn m c)) ifaces rest (acc @ [Some (nconns m)])"
      by blast
    let ?m1 = "fst (new_conn m c)"
    have n1: "nconns ?m1 = Suc (nconns m)" and c1: "chans ?m1 = chans m"
      and k1: "conns ?m1 = (conns m)(nconns m := c)"
      by (simp_all add: new_conn_def)
    from Cons [of ?m1 "acc @ [Some (nconns m)]"]
    obtain k where ih: "UpdateInterfaces_addrs env ?m1 ifaces rest (acc @ [Some (nconns m)]) = (m', acc') \<longrightarrow>
       acc' = (acc @ [Some (nconns m)]) @ map Some [nconns ?m1 ..< nconns ?m1 + k] \<and>
       nconns m' = nconns ?m1 + k \<and>
       chans m' = chans ?m1 \<and> (\<forall>r<nconns ?m1. conns m' r = conns ?m1 r) \<and>
       (\<forall>r. nconns ?m1 \<le> r \<and> r < nconns m' \<longrightarrow> is_open (conns m' r)) \<and>
       (k = 0 \<longrightarrow> m' = ?m1)"
      by blast
    show ?thesis
    proof (rule exI[of _ "Suc k"], rule impI)
      assume "UpdateInterfaces_addrs env m ifaces (addr # rest) acc = (m', acc')"
      with e ih have r: "acc' = (acc @ [Some (nconns m)]) @ map Some [nconns ?m1 ..< nconns ?m1 + k]"
        "nconns m' = nconns ?m1 + k" "chans m' = chans ?m1"
        "\<forall>r<nconns ?m1. conns m' r = conns ?m1 r"
        "\<forall>r. nconns ?m1 \<le> r \<and> r < nconns m' \<longrightarrow> is_open (conns m' r)"
        by simp_all
      have u: "[nconns m ..< nconns m + Suc k] = nconns m # [Suc (nconns m) ..< Suc (nconns m) + k]"
        by (simp add: upt_conv_Cons)
      have a: "acc' = acc @ map Some [nconns m ..< nconns m + Suc k]"
        unfolding u using r(1) n1 by simp
      have b: "nconns m' = nconns m + Suc k" using r(2) n1 by simp
      have d: "\<forall>r<nconns m. conns m' r = conns m r"
        using r(4) n1 k1 by simp
      have f: "\<forall>r. nconns m \<le> r \<and> r < nconns m' \<longrightarrow> is_open (conns m' r)"
      proof (intro allI impI)
        fix q assume q: "nconns m \<le> q \<and> q < nconns m'"
        show "is_open (conns m' q)"
        proof (cases "q = nconns m")
          case True
          then have "conns m' q = conns ?m1 q" using r(4) n1 by simp
          then show ?thesis using True k1 o by simp
        next
          case False
          then show ?thesis using q r(5) n1 by simp
        qed
      qed
      show "acc' = acc @ map Some [nconns m ..< nconns m + Suc k] \<and> nconns m' = nconns m + Suc k \<and>
       chans m' = chans m \<and> (\<forall>r<nconns m. conns m' r = conns m r) \<and>
       (\<forall>r. nconns m \<le> r \<and> r < nconns m' \<longrightarrow> is_open (conns m' r)) \<and>
       (Suc k = 0 \<longrightarrow> m' = m)"
        using a b r(3) c1 d f by simp
    qed
  qed
qed

lemma UpdateInterfaces_close_fold:
  "None \<notin> set cs \<Longrightarrow> UpdateInterfaces_close m cs = Some (fold close_conn cs m)"
proof (induction cs arbitrary: m)
  case Nil
  then show ?case by simp
next
  case (Cons c cs)
  then obtain r where "c = Some r" by (cases c) auto
  then show ?case using Cons by simp
qed

lemma startReadLoops_from_loops:
  assumes "AddrList h \<noteq> []"
  shows "startReadLoops_from h (int i) cs =
           Some (h\<lparr>Spawned := Spawned h @ read_loops (AddrList h) i cs\<rparr>)"
  using assms
proof (induction cs arbitrary: h i)
  case Nil
  then show ?case by simp
next
  case (Cons c cs)
  let ?n = "length (AddrList h)"
  have n: "0 < int ?n" using Cons.prems by simp
  have g: "go_rem (int i) (int ?n) = Some (int (i mod ?n))"
    using go_rem_nonneg [of "int i" "int ?n"] n by (simp add: zmod_int)
  have lt: "i mod ?n < ?n" using Cons.prems by simp
  have ix: "index_expr (AddrList h) (int (i mod ?n)) = Some (AddrList h ! (i mod ?n))"
    using lt by (simp add: index_expr_def)
  let ?h = "h\<lparr>Spawned := Spawned h @ [ReadLoop c (AddrList h ! (i mod ?n))]\<rparr>"
  have "startReadLoops_from h (int i) (c # cs) = startReadLoops_from ?h (int (Suc i)) cs"
    using g ix by (simp add: add.commute)
  also have "\<dots> = Some (?h\<lparr>Spawned := Spawned ?h @ read_loops (AddrList ?h) (Suc i) cs\<rparr>)"
    by (rule Cons.IH) (use Cons.prems in simp)
  finally show ?case by simp
qed


text \<open>
  C8. On a hub whose socket list holds no nil pointer and only sockets that exist,
  \<open>UpdateInterfaces\<close> returns. It returns \<open>nil\<close> if and only if at least one new socket
  has been bound. In both cases the clients table, the ring, \<open>LastFrame\<close> and every channel
  are as before. On failure the hub, with its socket list, and the sockets are unchanged.
  On success the socket list is exactly the list of the new sockets, in the order of
  their creation, every socket of the old list is closed, every new socket is open, and
  one receive loop has been started for each new socket; nothing else in the hub changes.
\<close>

theorem UpdateInterfaces_replaces_sockets:
  assumes "\<forall>c\<in>set (UdpConns h). \<exists>r. c = Some r \<and> r < nconns m"
  shows "\<exists>h' m' err. UpdateInterfaces env h m ifaces = Some (h', m', err) \<and>
     Clients h' = Clients h \<and> CacheBuffer h' = CacheBuffer h \<and> LastFrame h' = LastFrame h \<and>
     chans m' = chans m \<and>
     (err = None \<longleftrightarrow> nconns m < nconns m') \<and>
     (err \<noteq> None \<longrightarrow> h' = h \<and> m' = m) \<and>
     (err = None \<longrightarrow>
        h' = h\<lparr>UdpConns := map Some [nconns m ..< nconns m'],
               Spawned := Spawned h @ read_loops (AddrList h) 0 (map Some [nconns m ..< nconns m'])\<rparr> \<and>
        (\<forall>r. Some r \<in> set (UdpConns h) \<longrightarrow> \<not> is_open (conns m' r)) \<and>
        (\<forall>r. nconns m \<le> r \<and> r < nconns m' \<longrightarrow> is_open (conns m' r)))"
proof -
  obtain m1 newConns where u: "UpdateInterfaces_addrs env m ifaces (AddrList h) [] = (m1, newConns)"
    by (cases "UpdateInterfaces_addrs env m ifaces (AddrList h) []")
  from UpdateInterfaces_addrs_inv [of env m ifaces "AddrList h" "[]" m1 newConns] u
  obtain k where nc: "newConns = map Some [nconns m ..< nconns m + k]"
    and n1: "nconns m1 = nconns m + k" and c1: "chans m1 = chans m"
    and o1: "\<forall>r. nconns m \<le> r \<and> r < nconns m1 \<longrightarrow> is_open (conns m1 r)"
    and k0: "k = 0 \<longrightarrow> m1 = m"
    by auto
  show ?thesis
  proof (cases "k = 0")
    case True
    then have "UpdateInterfaces env h m ifaces = Some (h, m, Some ErrUpdateFailed)"
      using u nc k0 by (simp add: UpdateInterfaces_def)
    then show ?thesis by simp
  next
    case False
    then have ne: "newConns \<noteq> []" using nc by simp
    have al: "AddrList h \<noteq> []"
    proof
      assume "AddrList h = []"
      then have "newConns = []" using u by simp
      then show False using ne by simp
    qed
    have nn: "None \<notin> set (UdpConns h)" using assms by auto
    let ?m' = "fold close_conn (UdpConns h) m1"
    let ?h' = "h\<lparr>UdpConns := newConns,
                  Spawned := Spawned h @ read_loops (AddrList h) 0 newConns\<rparr>"
    have cl: "UpdateInterfaces_close m1 (UdpConns h) = Some ?m'"
      using nn by (rule UpdateInterfaces_close_fold)
    have "startReadLoops_from (h\<lparr>UdpConns := newConns\<rparr>) (int 0) newConns =
          Some ((h\<lparr>UdpConns := newConns\<rparr>)\<lparr>Spawned := Spawned (h\<lparr>UdpConns := newConns\<rparr>) @
                  read_loops (AddrList (h\<lparr>UdpConns := newConns\<rparr>)) 0 newConns\<rparr>)"
      by (rule startReadLoops_from_loops) (use al in simp)
    then have sr: "startReadLoops (h\<lparr>UdpConns := newConns\<rparr>) = Some ?h'"
      by (simp add: startReadLoops_def)
    have res: "UpdateInterfaces env h m ifaces = Some (?h', ?m', None)"
      using u ne cl sr by (simp add: UpdateInterfaces_def)
    have nm: "nconns ?m' = nconns m + k" using n1 by simp
    have old: "\<forall>r. Some r \<in> set (UdpConns h) \<longrightarrow> \<not> is_open (conns ?m' r)"
      by (simp add: fold_close_conn_is_open)
    have new: "\<forall>r. nconns m \<le> r \<and> r < nconns ?m' \<longrightarrow> is_open (conns ?m' r)"
    proof (intro allI impI)
      fix r assume r: "nconns m \<le> r \<and> r < nconns ?m'"
      have "Some r \<notin> set (UdpConns h)" using assms r by auto
      moreover have "is_open (conns m1 r)" using o1 r by simp
      ultimately show "is_open (conns ?m' r)" by (simp add: fold_close_conn_is_open)
    qed
    have hh: "?h' = h\<lparr>UdpConns := map Some [nconns m ..< nconns ?m'],
               Spawned := Spawned h @ read_loops (AddrList h) 0 (map Some [nconns m ..< nconns ?m'])\<rparr>"
      unfolding nm nc ..
    have lt: "nconns m < nconns ?m'" using nm False by simp
    have fr: "Clients ?h' = Clients h \<and> CacheBuffer ?h' = CacheBuffer h \<and>
              LastFrame ?h' = LastFrame h \<and> chans ?m' = chans m"
      using c1 by simp
    show ?thesis
      apply (rule exI[of _ ?h'])
      apply (rule exI[of _ ?m'])
      apply (rule exI[of _ None])
      using res fr lt hh old new by blast
  qed
qed

lemma ex_UpdateInterfaces:
  "\<exists>h' m'. UpdateInterfaces ex_env ex_hub ex_mem [''eth0''] = Some (h', m', None) \<and> nconns m' = 2"
proof -
  have mc: "isMulticast (Some [239, 0, 0, 1])"
    by (simp add: isMulticast_def To4_def)
  have l: "listen_on_names ex_env ex_mem ex_addr [''eth0''] =
           (fst (new_conn ex_mem \<lparr>laddr = ex_addr, via = Some \<lparr>Index = 2, Name = ''eth0''\<rparr>,
                                   multicast = True, is_open = True\<rparr>), Some 1)"
    using mc by (simp add: ex_env_def listenMulticast_def ListenMulticastUDP_def new_conn_def
                   ex_addr_def ex_mem_def)
  have u: "UpdateInterfaces_addrs ex_env ex_mem [''eth0''] (AddrList ex_hub) [] =
           (fst (new_conn ex_mem \<lparr>laddr = ex_addr, via = Some \<lparr>Index = 2, Name = ''eth0''\<rparr>,
                                   multicast = True, is_open = True\<rparr>), [Some 1])"
    using l by (simp add: ex_hub_def ex_env_def)
  have s: "startReadLoops (ex_hub\<lparr>UdpConns := [Some 1]\<rparr>) \<noteq> None"
    by (simp add: startReadLoops_def ex_hub_def go_rem_def index_expr_def)
  then obtain h' where s': "startReadLoops (ex_hub\<lparr>UdpConns := [Some 1]\<rparr>) = Some h'" by blast
  show ?thesis
    using u s' by (simp add: UpdateInterfaces_def new_conn_def ex_mem_def close_conn_def ex_hub_def)
qed

theorem UpdateInterfaces_replaces_sockets_witness:
  "\<exists>h' m'. UpdateInterfaces ex_env ex_hub ex_mem [''eth0''] = Some (h', m', None) \<and>
     Clients h' = Clients ex_hub \<and> CacheBuffer h' = CacheBuffer ex_hub \<and>
     LastFrame h' = LastFrame ex_hub \<and> chans m' = chans ex_mem \<and>
     UdpConns h' = [Some 1] \<and> \<not> is_open (conns m' 0) \<and> is_open (conns m' 1) \<and>
     Spawned h' = Spawned ex_hub @ [ReadLoop (Some 1) ''239.0.0.1:1234'']"
proof -
  have a: "\<forall>c\<in>set (UdpConns ex_hub). \<exists>r. c = Some r \<and> r < nconns ex_mem"
    by (simp add: ex_hub_def ex_mem_def)
  from ex_UpdateInterfaces obtain h0 m0
    where e: "UpdateInterfaces ex_env ex_hub ex_mem [''eth0''] = Some (h0, m0, None)"
      and n: "nconns m0 = 2" by blast
  from UpdateInterfaces_replaces_sockets [OF a, of ex_env "[''eth0'']"] e
  have r: "Clients h0 = Clients ex_hub" "CacheBuffer h0 = CacheBuffer ex_hub"
     "LastFrame h0 = LastFrame ex_hub" "chans m0 = chans ex_mem"
     "h0 = ex_hub\<lparr>UdpConns := map Some [nconns ex_mem ..< nconns m0],
               Spawned := Spawned ex_hub @
                 read_loops (AddrList ex_hub) 0 (map Some [nconns ex_mem ..< nconns m0])\<rparr>"
     "\<forall>r. Some r \<in> set (UdpConns ex_hub) \<longrightarrow> \<not> is_open (conns m0 r)"
     "\<forall>r. nconns ex_mem \<le> r \<and> r < nconns m0 \<longrightarrow> is_open (conns m0 r)"
    by auto
  have up: "[nconns ex_mem ..< nconns m0] = [1]" using n by (simp add: ex_mem_def upt_rec)
  have u: "UdpConns h0 = [Some 1]"
    and sp: "Spawned h0 = Spawned ex_hub @ [ReadLoop (Some 1) ''239.0.0.1:1234'']"
    using r(5) unfolding up by (simp_all add: ex_hub_def)
  have o: "\<not> is_open (conns m0 0)" using r(6) by (simp add: ex_hub_def)
  have p: "is_open (conns m0 1)" using r(7) n by (simp add: ex_mem_def)
  show ?thesis using e r(1-4) u sp o p by blast
qed

section \<open>Proofs: the hub registry\<close>


































end
